theory Spec2Isabelle
  imports Complex_Main "HOL-Library.Log_Nat"
begin

section \<open>The program: GLV lattice basis and scalar decomposition\<close>

text \<open>
  The script computes, for a group order \<open>Fr\<close> and an endomorphism eigenvalue \<open>Lambda\<close>,
  the auxiliary integers \<open>a1, b1, a2, b2\<close> with a truncated extended Euclidean loop
  (lines 166-200), the bit bound \<open>limit\<close> (lines 217-220) and the function
  \<open>get_endomorphism_scalar_decomposition\<close> (lines 224-235). All numbers are Sage
  integers (unbounded), modelled as \<open>int\<close>; Python exceptions are values of
  \<open>py_error\<close>, returned in the left summand.
\<close>

subsection \<open>The group orders of the script\<close>

datatype Curve = BN256 | BLS12 | SECP256K1

text \<open>\<open>Params(mode).Fr\<close>, lines 16, 22 and 29.\<close>

fun Params_Fr :: "Curve \<Rightarrow> int" where
  "Params_Fr BN256 = 21888242871839275222246405745257275088548364400416034343698204186575808495617"
| "Params_Fr BLS12 = 52435875175126190479447740508185965837690552500527637822603658699938581184513"
| "Params_Fr SECP256K1 = 115792089237316195423570985008687907852837564279074904382605163141518161494337"

subsection \<open>Exceptions and the Sage integer primitives the script calls\<close>

datatype py_error = ZeroDivisionError | ValueError | AssertionError

text \<open>\<open>int(v/u)\<close>: the quotient \<open>v/u\<close> is an exact rational, \<open>int\<close> truncates it
  toward zero. A zero divisor raises \<open>ZeroDivisionError\<close>; the two places that divide
  test for it before they call this function.\<close>

definition trunc_quot :: "int \<Rightarrow> int \<Rightarrow> int" where
  "trunc_quot v u = sgn v * sgn u * (\<bar>v\<bar> div \<bar>u\<bar>)"

text \<open>\<open>n.nbits()\<close>: the number of binary digits of \<open>|n|\<close>, and \<open>0\<close> for \<open>n = 0\<close>.\<close>

fun nbits_nat :: "nat \<Rightarrow> nat" where
  "nbits_nat n = (if n = 0 then 0 else Suc (nbits_nat (n div 2)))"

declare nbits_nat.simps [simp del]

definition nbits :: "int \<Rightarrow> nat" where
  "nbits n = nbits_nat (nat \<bar>n\<bar>)"

text \<open>\<open>n.isqrt()\<close>: the floor of the square root; Sage raises \<open>ValueError\<close> on a
  negative argument.\<close>

fun isqrt_nat :: "nat \<Rightarrow> nat" where
  "isqrt_nat n =
     (if n < 2 then n
      else (let s = 2 * isqrt_nat (n div 4)
            in if (s + 1) * (s + 1) \<le> n then s + 1 else s))"

declare isqrt_nat.simps [simp del]

definition isqrt :: "int \<Rightarrow> py_error + int" where
  "isqrt n = (if n < 0 then Inl ValueError else Inr (int (isqrt_nat (nat n))))"

text \<open>\<open>round(x)\<close> on a Sage rational: \<open>Rational.round\<close> with its default mode
  \<open>away\<close>, which adds one half and takes the floor for \<open>x \<ge> 0\<close>, and takes the ceiling
  minus one for \<open>x < 0\<close>.\<close>

definition sage_round :: "rat \<Rightarrow> int" where
  "sage_round x = (if x < 0 then \<lceil>x + 1 / 2\<rceil> - 1 else \<lfloor>x + 1 / 2\<rfloor>)"

subsection \<open>The basis-reduction loop (lines 166-200)\<close>

text \<open>The loop variables \<open>(u, v, x1, y1, x2, y2)\<close>.\<close>

type_synonym euclid_state = "int \<times> int \<times> int \<times> int \<times> int \<times> int"

text \<open>The computed constants \<open>(a1, b1, a2, b2)\<close>.\<close>

type_synonym lattice_basis = "int \<times> int \<times> int \<times> int"

definition initial_state :: "int \<Rightarrow> int \<Rightarrow> euclid_state" where
  "initial_state Fr Lambda = (Fr, Lambda, 1, 0, 0, 1)"

text \<open>Lines 171-180: one division and the rotation of the variables.\<close>

fun euclid_step :: "euclid_state \<Rightarrow> py_error + euclid_state" where
  "euclid_step (u, v, x1, y1, x2, y2) =
     (if u = 0 then Inl ZeroDivisionError
      else (let q = trunc_quot v u;
                r = v - q * u;
                x = x2 - q * x1;
                y = y2 - q * y1
            in Inr (r, u, x, y, x1, y1)))"

text \<open>Lines 183-199, run on the rotated variables when \<open>r < bound\<close> (\<open>r\<close> is then the
  value of \<open>u\<close>). The variable \<open>x_l2\<close> of line 189 is never read and is left out.\<close>

fun select_vectors :: "int \<Rightarrow> int \<Rightarrow> euclid_state \<Rightarrow> py_error + lattice_basis" where
  "select_vectors Fr Lambda (u, v, x1, y1, x2, y2) =
     (let a1 = u;
          b1 = - y1;
          r_l = x2 * Fr + y2 * Lambda;
          t_l = y2
      in if u = 0 then Inl ZeroDivisionError
         else (let q = trunc_quot v u;
                   r_l2 = v - q * u;
                   y_l2 = y2 - q * y1
               in if r_l ^ 2 + t_l ^ 2 \<le> r_l2 ^ 2 + y_l2 ^ 2
                  then Inr (r_l, - t_l, a1, b1)
                  else Inr (a1, b1, r_l2, - y_l2)))"

text \<open>The \<open>while True\<close> loop: it leaves through \<open>break\<close> or through an exception.\<close>

function basis_loop :: "int \<Rightarrow> int \<Rightarrow> int \<Rightarrow> euclid_state \<Rightarrow> py_error + lattice_basis" where
  "basis_loop Fr Lambda bound s =
     (case euclid_step s of
        Inl e \<Rightarrow> Inl e
      | Inr s' \<Rightarrow>
          if fst s' < bound then select_vectors Fr Lambda s'
          else basis_loop Fr Lambda bound s')"
  by pat_completeness auto

termination
proof (relation "measure (\<lambda>(Fr, Lambda, bound, s). nat \<bar>fst s\<bar>)")
  show "wf (measure (\<lambda>(Fr, Lambda, bound, s). nat \<bar>fst s\<bar>))"
    by simp
next
  fix Fr Lambda bound :: int and s s' :: euclid_state
  assume step: "euclid_step s = Inr s'"
  obtain u v x1 y1 x2 y2 where s: "s = (u, v, x1, y1, x2, y2)"
    by (cases s) auto
  from step s have u: "u \<noteq> 0" and r: "fst s' = v - trunc_quot v u * u"
    by (auto simp: Let_def split: if_splits)
  have "trunc_quot v u * u = sgn v * (\<bar>v\<bar> div \<bar>u\<bar> * \<bar>u\<bar>)"
    by (simp add: trunc_quot_def abs_sgn mult.assoc mult.left_commute mult.commute)
  moreover have "v = sgn v * \<bar>v\<bar>"
    by (simp add: mult_sgn_abs)
  moreover have "\<bar>v\<bar> = \<bar>v\<bar> div \<bar>u\<bar> * \<bar>u\<bar> + \<bar>v\<bar> mod \<bar>u\<bar>"
    by simp
  ultimately have eq: "v - trunc_quot v u * u = sgn v * (\<bar>v\<bar> mod \<bar>u\<bar>)"
    by (metis add_diff_cancel_left' right_diff_distrib)
  have nonneg: "0 \<le> \<bar>v\<bar> mod \<bar>u\<bar>" and less: "\<bar>v\<bar> mod \<bar>u\<bar> < \<bar>u\<bar>"
    using u by simp_all
  have "\<bar>sgn v * (\<bar>v\<bar> mod \<bar>u\<bar>)\<bar> \<le> \<bar>v\<bar> mod \<bar>u\<bar>"
    using nonneg by (simp add: abs_mult abs_sgn_eq)
  with less eq r have "\<bar>fst s'\<bar> < \<bar>fst s\<bar>"
    by (simp add: s)
  then show "((Fr, Lambda, bound, s'), (Fr, Lambda, bound, s))
      \<in> measure (\<lambda>(Fr, Lambda, bound, s). nat \<bar>fst s\<bar>)"
    by simp
qed

declare basis_loop.simps [simp del]

declare euclid_step.simps [simp del]

declare select_vectors.simps [simp del]

definition build_basis :: "int \<Rightarrow> int \<Rightarrow> py_error + lattice_basis" where
  "build_basis Fr Lambda =
     (case isqrt Fr of
        Inl e \<Rightarrow> Inl e
      | Inr bound \<Rightarrow> basis_loop Fr Lambda bound (initial_state Fr Lambda))"

subsection \<open>The bit bound (lines 217-220)\<close>

definition max_norm_squared :: "lattice_basis \<Rightarrow> int" where
  "max_norm_squared B =
     (case B of (a1, b1, a2, b2) \<Rightarrow>
        (let v_1_norm_squared = a1 ^ 2 + b1 ^ 2;
             v_2_norm_squared = a2 ^ 2 + b2 ^ 2
         in max v_1_norm_squared v_2_norm_squared))"

text \<open>\<open>int((max_norm_squared.nbits() + 1) / 2)\<close>: an exact non-negative rational,
  truncated.\<close>

definition limit_of :: "lattice_basis \<Rightarrow> nat" where
  "limit_of B = (nbits (max_norm_squared B) + 1) div 2"

subsection \<open>Scalar decomposition (lines 224-235)\<close>

text \<open>The function reads the globals \<open>params.Fr\<close>, \<open>a1, b1, a2, b2\<close> and \<open>limit\<close>; here
  they are arguments. The quotients \<open>b2 * k / params.Fr\<close> and \<open>-b1 * k / params.Fr\<close> of
  Sage integers are exact rationals.\<close>

text \<open>Lines 225-226.\<close>

definition rounding_coefficients :: "int \<Rightarrow> lattice_basis \<Rightarrow> int \<Rightarrow> int \<times> int" where
  "rounding_coefficients Fr B k =
     (case B of (a1, b1, a2, b2) \<Rightarrow>
        (let c1 = sage_round (of_int (b2 * k) / of_int Fr);
             c2 = sage_round (of_int (- b1 * k) / of_int Fr)
         in (c1, c2)))"

text \<open>Lines 227-228.\<close>

definition raw_decomposition :: "int \<Rightarrow> lattice_basis \<Rightarrow> int \<Rightarrow> int \<times> int" where
  "raw_decomposition Fr B k =
     (case B of (a1, b1, a2, b2) \<Rightarrow>
        (case rounding_coefficients Fr B k of (c1, c2) \<Rightarrow>
           (let k1 = k - c1 * a1 - c2 * a2;
                k2 = - c1 * b1 - c2 * b2
            in (k1, k2))))"

text \<open>Lines 229-232: the conditional replacement of one component.\<close>

definition replace_if_long :: "int \<Rightarrow> nat \<Rightarrow> int \<Rightarrow> int" where
  "replace_if_long Fr limit kk = (if nbits kk > limit then Fr - kk else kk)"

text \<open>The whole function. The rational division raises on a zero modulus; a failed
  \<open>assert\<close> raises \<open>AssertionError\<close>.\<close>

definition get_endomorphism_scalar_decomposition ::
  "int \<Rightarrow> lattice_basis \<Rightarrow> nat \<Rightarrow> int \<Rightarrow> py_error + (int \<times> int)" where
  "get_endomorphism_scalar_decomposition Fr B limit k =
     (if Fr = 0 then Inl ZeroDivisionError
      else (case raw_decomposition Fr B k of (k1, k2) \<Rightarrow>
        (let k1 = replace_if_long Fr limit k1;
             k2 = replace_if_long Fr limit k2
         in if \<not> nbits k1 \<le> limit then Inl AssertionError
            else if \<not> nbits k2 \<le> limit then Inl AssertionError
            else Inr (k1, k2))))"

text \<open>The whole script for one scalar: the basis, the bound, the decomposition.\<close>

definition decompose :: "int \<Rightarrow> int \<Rightarrow> int \<Rightarrow> py_error + (int \<times> int)" where
  "decompose Fr Lambda k =
     (case build_basis Fr Lambda of
        Inl e \<Rightarrow> Inl e
      | Inr B \<Rightarrow> get_endomorphism_scalar_decomposition Fr B (limit_of B) k)"

section \<open>Notions used in the statements\<close>

subsection \<open>Iteration budget and loop states\<close>

text \<open>The same loop with an iteration budget: \<open>None\<close> when the budget is used up before
  the loop has left.\<close>

fun basis_loop_fuel ::
  "nat \<Rightarrow> int \<Rightarrow> int \<Rightarrow> int \<Rightarrow> euclid_state \<Rightarrow> (py_error + lattice_basis) option" where
  "basis_loop_fuel 0 Fr Lambda bound s = None"
| "basis_loop_fuel (Suc n) Fr Lambda bound s =
     (case euclid_step s of
        Inl e \<Rightarrow> Some (Inl e)
      | Inr s' \<Rightarrow>
          if fst s' < bound then Some (select_vectors Fr Lambda s')
          else basis_loop_fuel n Fr Lambda bound s')"

text \<open>The states at the head of the loop body: the initial one, and every rotated state
  whose remainder did not pass the \<open>r < bound\<close> test.\<close>

inductive at_loop_head :: "int \<Rightarrow> int \<Rightarrow> int \<Rightarrow> euclid_state \<Rightarrow> bool"
  for Fr Lambda bound where
  head_initial: "at_loop_head Fr Lambda bound (initial_state Fr Lambda)"
| head_next: "at_loop_head Fr Lambda bound s \<Longrightarrow> euclid_step s = Inr s' \<Longrightarrow>
     \<not> fst s' < bound \<Longrightarrow> at_loop_head Fr Lambda bound s'"

text \<open>Basis construction with an iteration budget for its loop.\<close>

definition build_basis_fuel :: "nat \<Rightarrow> int \<Rightarrow> int \<Rightarrow> (py_error + lattice_basis) option" where
  "build_basis_fuel n Fr Lambda =
     (case isqrt Fr of
        Inl e \<Rightarrow> Some (Inl e)
      | Inr bound \<Rightarrow> basis_loop_fuel n Fr Lambda bound (initial_state Fr Lambda))"

subsection \<open>Invariants\<close>

text \<open>The Bezout relations of the loop variables, and the determinant of the two
  coefficient pairs.\<close>

definition bezout_inv :: "int \<Rightarrow> int \<Rightarrow> euclid_state \<Rightarrow> bool" where
  "bezout_inv Fr Lambda s =
     (case s of (u, v, x1, y1, x2, y2) \<Rightarrow>
        u = x1 * Fr + y1 * Lambda \<and> v = x2 * Fr + y2 * Lambda)"

definition unimodular :: "euclid_state \<Rightarrow> bool" where
  "unimodular s = (case s of (u, v, x1, y1, x2, y2) \<Rightarrow> \<bar>x1 * y2 - x2 * y1\<bar> = 1)"

text \<open>For a modulus of at least 4 and an eigenvalue coprime to it, every state at the head
  of the loop has a divisor \<open>u \<ge> 2\<close> coprime to \<open>v \<ge> 0\<close>.\<close>

definition coprime_state :: "euclid_state \<Rightarrow> bool" where
  "coprime_state s = (case s of (u, v, x1, y1, x2, y2) \<Rightarrow> 2 \<le> u \<and> 0 \<le> v \<and> coprime u v)"

text \<open>Primality of the group order, by trial division.\<close>

definition is_prime :: "int \<Rightarrow> bool" where
  "is_prime p = (2 \<le> p \<and> (\<forall>d\<in>{2..<p}. \<not> d dvd p))"

subsection \<open>The specification in its own words\<close>

text \<open>The formula of the specification, in its own words: the ceiling of the binary
  logarithm of the larger squared norm, plus one, halved and rounded up.\<close>

definition spec_limit :: "lattice_basis \<Rightarrow> int" where
  "spec_limit B = \<lceil>(of_int \<lceil>log 2 (of_int (max_norm_squared B))\<rceil> + 1) / (2::real)\<rceil>"

text \<open>Rounding to a nearest integer, a tie going away from zero.\<close>

definition rounds_half_away :: "rat \<Rightarrow> int \<Rightarrow> bool" where
  "rounds_half_away x c =
     (\<bar>of_int c - x\<bar> \<le> 1 / 2 \<and> (\<bar>of_int c - x\<bar> = 1 / 2 \<longrightarrow> \<bar>x\<bar> < \<bar>of_int c\<bar>))"

text \<open>The recurrence in the words of the specification: the division is the floor
  division; \<open>spec_state Fr Lambda n\<close> is the state after \<open>n\<close> steps.\<close>

definition spec_step :: "euclid_state \<Rightarrow> euclid_state" where
  "spec_step s =
     (case s of (u, v, x1, y1, x2, y2) \<Rightarrow>
        (let q = v div u; r = v - q * u; x = x2 - q * x1; y = y2 - q * y1
         in (r, u, x, y, x1, y1)))"

definition spec_state :: "int \<Rightarrow> int \<Rightarrow> nat \<Rightarrow> euclid_state" where
  "spec_state Fr Lambda n = (spec_step ^^ n) (Fr, Lambda, 1, 0, 0, 1)"

text \<open>The remainder and the coefficient pair \<open>(x, y)\<close> of step \<open>n\<close>.\<close>

definition spec_remainder :: "int \<Rightarrow> int \<Rightarrow> nat \<Rightarrow> int" where
  "spec_remainder Fr Lambda n = (case spec_state Fr Lambda n of (u, v, x1, y1, x2, y2) \<Rightarrow> u)"

definition spec_x :: "int \<Rightarrow> int \<Rightarrow> nat \<Rightarrow> int" where
  "spec_x Fr Lambda n = (case spec_state Fr Lambda n of (u, v, x1, y1, x2, y2) \<Rightarrow> x1)"

definition spec_y :: "int \<Rightarrow> int \<Rightarrow> nat \<Rightarrow> int" where
  "spec_y Fr Lambda n = (case spec_state Fr Lambda n of (u, v, x1, y1, x2, y2) \<Rightarrow> y1)"

text \<open>Step \<open>n\<close> is the first whose remainder is below the bound.\<close>

definition spec_stops_at :: "int \<Rightarrow> int \<Rightarrow> int \<Rightarrow> nat \<Rightarrow> bool" where
  "spec_stops_at Fr Lambda bound n =
     (1 \<le> n \<and> spec_remainder Fr Lambda n < bound \<and>
      (\<forall>m\<in>{1..<n}. \<not> spec_remainder Fr Lambda m < bound))"

text \<open>The three candidates around the stopping step \<open>n\<close> and the tie-break.\<close>

definition spec_basis :: "int \<Rightarrow> int \<Rightarrow> nat \<Rightarrow> lattice_basis" where
  "spec_basis Fr Lambda n =
     (let r = spec_remainder Fr Lambda n;
          y1 = spec_y Fr Lambda n;
          r_l2 = spec_remainder Fr Lambda (n + 1);
          y_l2 = spec_y Fr Lambda (n + 1);
          r_l = spec_x Fr Lambda (n - 1) * Fr + spec_y Fr Lambda (n - 1) * Lambda;
          t_l = spec_y Fr Lambda (n - 1)
      in if r_l ^ 2 + t_l ^ 2 \<le> r_l2 ^ 2 + y_l2 ^ 2
         then (r_l, - t_l, r, - y1)
         else (r, - y1, r_l2, - y_l2))"

section \<open>Facts about the primitives\<close>

lemma euclid_step_Inr:
  assumes "euclid_step (u, v, x1, y1, x2, y2) = Inr s'"
  shows "u \<noteq> 0 \<and> s' = (v - trunc_quot v u * u, u, x2 - trunc_quot v u * x1,
           y2 - trunc_quot v u * y1, x1, y1)"
  using assms by (auto simp: euclid_step.simps Let_def split: if_splits)

text \<open>The truncated division leaves a remainder smaller in absolute value than the
  divisor, whatever the signs.\<close>

lemma trunc_quot_rem_less:
  assumes "u \<noteq> 0"
  shows "\<bar>v - trunc_quot v u * u\<bar> < \<bar>u\<bar>"
proof -
  have "trunc_quot v u * u = sgn v * (\<bar>v\<bar> div \<bar>u\<bar> * \<bar>u\<bar>)"
    by (simp add: trunc_quot_def abs_sgn mult.assoc mult.left_commute mult.commute)
  moreover have "v = sgn v * \<bar>v\<bar>"
    by (simp add: mult_sgn_abs)
  moreover have "\<bar>v\<bar> = \<bar>v\<bar> div \<bar>u\<bar> * \<bar>u\<bar> + \<bar>v\<bar> mod \<bar>u\<bar>"
    by simp
  ultimately have eq: "v - trunc_quot v u * u = sgn v * (\<bar>v\<bar> mod \<bar>u\<bar>)"
    by (metis add_diff_cancel_left' right_diff_distrib)
  have nonneg: "0 \<le> \<bar>v\<bar> mod \<bar>u\<bar>" and less: "\<bar>v\<bar> mod \<bar>u\<bar> < \<bar>u\<bar>"
    using assms by simp_all
  have "\<bar>sgn v * (\<bar>v\<bar> mod \<bar>u\<bar>)\<bar> \<le> \<bar>v\<bar> mod \<bar>u\<bar>"
    using nonneg by (simp add: abs_mult abs_sgn_eq)
  with less eq show ?thesis
    by simp
qed

lemma euclid_step_decreases:
  assumes "euclid_step s = Inr s'"
  shows "\<bar>fst s'\<bar> < \<bar>fst s\<bar>"
proof -
  obtain u v x1 y1 x2 y2 where s: "s = (u, v, x1, y1, x2, y2)"
    by (cases s) auto
  from assms s have "u \<noteq> 0" and "fst s' = v - trunc_quot v u * u"
    using euclid_step_Inr by fastforce+
  then show ?thesis
    using trunc_quot_rem_less [of u v] s by simp
qed

lemma trunc_quot_nonneg: "0 \<le> v \<Longrightarrow> 0 < u \<Longrightarrow> trunc_quot v u = v div u"
  by (cases "v = 0") (simp_all add: trunc_quot_def)

lemma nbits_nat_floorlog: "nbits_nat n = floorlog 2 n"
proof (induction n rule: nbits_nat.induct)
  case (1 n)
  show ?case
  proof (cases "n = 0")
    case True
    then show ?thesis by (simp add: nbits_nat.simps compute_floorlog)
  next
    case False
    with 1 show ?thesis
      by (subst nbits_nat.simps, subst compute_floorlog) simp
  qed
qed

lemma nbits_le_iff: "nbits n \<le> L \<longleftrightarrow> \<bar>n\<bar> < 2 ^ L"
proof -
  have "nbits n \<le> L \<longleftrightarrow> nat \<bar>n\<bar> < 2 ^ L"
    by (simp add: nbits_def nbits_nat_floorlog floorlog_le_iff)
  also have "\<dots> \<longleftrightarrow> \<bar>n\<bar> < 2 ^ L"
    by (simp add: nat_less_iff)
  finally show ?thesis .
qed

lemma nbits_minus: "nbits (- n) = nbits n"
  by (simp add: nbits_def)

lemma isqrt_nat_bounds: "isqrt_nat n * isqrt_nat n \<le> n \<and> n < (isqrt_nat n + 1) * (isqrt_nat n + 1)"
proof (induction n rule: isqrt_nat.induct)
  case (1 n)
  show ?case
  proof (cases "n < 2")
    case True
    then have "isqrt_nat n = n" by (subst isqrt_nat.simps) simp
    moreover from True have "n = 0 \<or> n = 1" by auto
    ultimately show ?thesis by auto
  next
    case False
    define t where "t = isqrt_nat (n div 4)"
    from 1 False have ih: "t * t \<le> n div 4" "n div 4 < (t + 1) * (t + 1)"
      by (simp_all add: t_def)
    have lo: "(2 * t) * (2 * t) \<le> n"
    proof -
      have "(2 * t) * (2 * t) = 4 * (t * t)" by simp
      also have "\<dots> \<le> 4 * (n div 4)" using ih(1) by simp
      also have "\<dots> \<le> n" by simp
      finally show ?thesis .
    qed
    have hi: "n < (2 * t + 2) * (2 * t + 2)"
    proof -
      have "n < 4 * (n div 4 + 1)" by simp
      also have "\<dots> \<le> 4 * ((t + 1) * (t + 1))" using ih(2) by simp
      also have "\<dots> = (2 * t + 2) * (2 * t + 2)" by (simp add: algebra_simps)
      finally show ?thesis .
    qed
    have eq: "isqrt_nat n = (if (2 * t + 1) * (2 * t + 1) \<le> n then 2 * t + 1 else 2 * t)"
      using False by (subst isqrt_nat.simps) (simp add: t_def Let_def)
    show ?thesis
    proof (cases "(2 * t + 1) * (2 * t + 1) \<le> n")
      case True
      with eq hi show ?thesis by (simp add: algebra_simps)
    next
      case False
      with eq lo show ?thesis by (simp add: algebra_simps)
    qed
  qed
qed

lemma euclid_step_nonneg:
  assumes "0 < u" and "0 \<le> v"
  shows "euclid_step (u, v, x1, y1, x2, y2) =
           Inr (v mod u, u, x2 - (v div u) * x1, y2 - (v div u) * y1, x1, y1)"
proof -
  have "trunc_quot v u = v div u"
    using assms by (simp add: trunc_quot_nonneg)
  moreover have "v - (v div u) * u = v mod u"
    by (simp add: minus_div_mult_eq_mod)
  ultimately show ?thesis
    using assms by (simp add: euclid_step.simps Let_def)
qed

lemma isqrt_floor_sqrt:
  assumes "0 \<le> Fr"
  shows "\<exists>bound. isqrt Fr = Inr bound \<and> 0 \<le> bound \<and> bound ^ 2 \<le> Fr \<and> Fr < (bound + 1) ^ 2"
proof -
  define b where "b = isqrt_nat (nat Fr)"
  have "b * b \<le> nat Fr" "nat Fr < (b + 1) * (b + 1)"
    unfolding b_def using isqrt_nat_bounds by blast+
  then have "int (b * b) \<le> Fr" "Fr < int ((b + 1) * (b + 1))"
    using assms by linarith+
  then have "(int b) ^ 2 \<le> Fr" "Fr < (int b + 1) ^ 2"
    by (simp_all add: power2_eq_square algebra_simps)
  moreover have "isqrt Fr = Inr (int b)"
    using assms by (simp add: isqrt_def b_def)
  ultimately show ?thesis by simp
qed

lemma isqrt_unique:
  assumes "0 \<le> b" and "b * b \<le> n" and "n < (b + 1) * (b + 1)"
  shows "isqrt n = Inr b"
proof -
  define s where "s = int (isqrt_nat (nat n))"
  have n0: "0 \<le> n"
    using assms(1,2) by (meson mult_nonneg_nonneg order_trans)
  have "isqrt_nat (nat n) * isqrt_nat (nat n) \<le> nat n"
    "nat n < (isqrt_nat (nat n) + 1) * (isqrt_nat (nat n) + 1)"
    using isqrt_nat_bounds by blast+
  then have "int (isqrt_nat (nat n) * isqrt_nat (nat n)) \<le> n"
    "n < int ((isqrt_nat (nat n) + 1) * (isqrt_nat (nat n) + 1))"
    using n0 by linarith+
  then have s: "s * s \<le> n" "n < (s + 1) * (s + 1)"
    by (simp_all add: s_def algebra_simps)
  have s0: "0 \<le> s" by (simp add: s_def)
  have "\<not> s < b"
  proof
    assume "s < b"
    then have "s + 1 \<le> b" by simp
    then have "(s + 1) * (s + 1) \<le> b * b"
      using s0 by (intro mult_mono) simp_all
    with s(2) assms(2) show False by simp
  qed
  moreover have "\<not> b < s"
  proof
    assume "b < s"
    then have "b + 1 \<le> s" by simp
    then have "(b + 1) * (b + 1) \<le> s * s"
      using assms(1) by (intro mult_mono) simp_all
    with s(1) assms(3) show False by simp
  qed
  ultimately have "s = b" by simp
  then show ?thesis
    using n0 by (simp add: isqrt_def s_def)
qed

lemma nbits_gt_iff: "L < nbits n \<longleftrightarrow> 2 ^ L \<le> \<bar>n\<bar>"
  using nbits_le_iff [of n L] by auto

lemma nbits_eq:
  assumes "2 ^ L \<le> \<bar>n\<bar>" and "\<bar>n\<bar> < 2 ^ Suc L"
  shows "nbits n = Suc L"
proof -
  from assms(1) have "L < nbits n" by (simp add: nbits_gt_iff)
  moreover from assms(2) have "nbits n \<le> Suc L" by (simp only: nbits_le_iff)
  ultimately show ?thesis by simp
qed

lemma sage_round_fraction:
  assumes "0 < d"
  shows "sage_round (of_int n / of_int d) =
           (if n < 0 then - ((2 * (- n) + d) div (2 * d)) else (2 * n + d) div (2 * d))"
proof -
  have dq: "(of_int d :: rat) \<noteq> 0" "0 < (of_int d :: rat)" using assms by simp_all
  have half: "(of_int m / of_int d :: rat) + 1 / 2 = of_int (2 * m + d) / of_int (2 * d)" for m
    using dq by (simp add: field_simps)
  show ?thesis
  proof (cases "n < 0")
    case False
    then have "\<not> (of_int n / of_int d :: rat) < 0"
      using dq by (simp add: divide_less_0_iff)
    then have "sage_round (of_int n / of_int d) = \<lfloor>(of_int n / of_int d :: rat) + 1 / 2\<rfloor>"
      by (simp add: sage_round_def)
    also have "\<dots> = (2 * n + d) div (2 * d)"
      unfolding half by (rule floor_divide_of_int_eq)
    finally show ?thesis using False by simp
  next
    case True
    then have neg: "(of_int n / of_int d :: rat) < 0"
      using dq by (simp add: divide_less_0_iff)
    define x :: rat where "x = of_int (- n) / of_int d"
    have xn: "of_int n / of_int d = - x" by (simp add: x_def)
    have "\<lfloor>x + 1 / 2\<rfloor> = (2 * (- n) + d) div (2 * d)"
      unfolding x_def half by (rule floor_divide_of_int_eq)
    moreover have "\<lceil>- x + 1 / 2\<rceil> - 1 = - \<lfloor>x + 1 / 2\<rfloor>"
    proof -
      have "\<lceil>- x + 1 / 2\<rceil> = - \<lfloor>x - 1 / 2\<rfloor>"
        by (simp add: ceiling_def)
      moreover have "\<lfloor>x + 1 / 2\<rfloor> = \<lfloor>x - 1 / 2\<rfloor> + 1"
      proof -
        have "x + 1 / 2 = (x - 1 / 2) + of_int 1" by simp
        then show ?thesis by (simp only: floor_add_int)
      qed
      ultimately show ?thesis by simp
    qed
    ultimately show ?thesis
      using True neg by (simp add: sage_round_def xn)
  qed
qed

section \<open>The basis-reduction loop\<close>

subsection \<open>Invariants of the loop\<close>

lemma bezout_inv_initial: "bezout_inv Fr Lambda (initial_state Fr Lambda)"
  by (simp add: bezout_inv_def initial_state_def)

lemma unimodular_initial: "unimodular (initial_state Fr Lambda)"
  by (simp add: unimodular_def initial_state_def)

lemma bezout_inv_step:
  assumes "bezout_inv Fr Lambda s" and "euclid_step s = Inr s'"
  shows "bezout_inv Fr Lambda s'"
proof -
  obtain u v x1 y1 x2 y2 where s: "s = (u, v, x1, y1, x2, y2)"
    by (cases s) auto
  from assms(2) s have s': "s' = (v - trunc_quot v u * u, u, x2 - trunc_quot v u * x1,
      y2 - trunc_quot v u * y1, x1, y1)"
    using euclid_step_Inr by blast
  from assms(1) s have "u = x1 * Fr + y1 * Lambda" "v = x2 * Fr + y2 * Lambda"
    by (simp_all add: bezout_inv_def)
  then show ?thesis
    unfolding s' bezout_inv_def by (simp add: algebra_simps)
qed

lemma unimodular_step:
  assumes "unimodular s" and "euclid_step s = Inr s'"
  shows "unimodular s'"
proof -
  obtain u v x1 y1 x2 y2 where s: "s = (u, v, x1, y1, x2, y2)"
    by (cases s) auto
  from assms(2) s have s': "s' = (v - trunc_quot v u * u, u, x2 - trunc_quot v u * x1,
      y2 - trunc_quot v u * y1, x1, y1)"
    using euclid_step_Inr by blast
  define q where "q = trunc_quot v u"
  have "(x2 - q * x1) * y1 - x1 * (y2 - q * y1) = - (x1 * y2 - x2 * y1)"
    by (simp add: algebra_simps)
  moreover from assms(1) s have "\<bar>x1 * y2 - x2 * y1\<bar> = 1"
    by (simp add: unimodular_def)
  ultimately have "\<bar>(x2 - q * x1) * y1 - x1 * (y2 - q * y1)\<bar> = 1"
    by simp
  then show ?thesis
    unfolding s' unimodular_def q_def by simp
qed

lemma at_loop_head_inv:
  assumes "at_loop_head Fr Lambda bound s"
  shows "bezout_inv Fr Lambda s \<and> unimodular s"
  using assms
proof (induction rule: at_loop_head.induct)
  case head_initial
  show ?case by (simp add: bezout_inv_initial unimodular_initial)
next
  case (head_next s s')
  then show ?case by (auto intro: bezout_inv_step unimodular_step)
qed

text \<open>How the loop leaves, started at a state at its head.\<close>

lemma basis_loop_exit:
  assumes "at_loop_head Fr Lambda bound s"
  shows "(\<exists>s0. at_loop_head Fr Lambda bound s0 \<and> euclid_step s0 = Inl ZeroDivisionError \<and>
            basis_loop Fr Lambda bound s = Inl ZeroDivisionError) \<or>
         (\<exists>s0 s'. at_loop_head Fr Lambda bound s0 \<and> euclid_step s0 = Inr s' \<and>
            fst s' < bound \<and> basis_loop Fr Lambda bound s = select_vectors Fr Lambda s')"
  using assms
proof (induction Fr Lambda bound s rule: basis_loop.induct)
  case (1 Fr Lambda bound s)
  show ?case
  proof (cases "euclid_step s")
    case (Inl e)
    obtain u v x1 y1 x2 y2 where s: "s = (u, v, x1, y1, x2, y2)"
      by (cases s) auto
    from Inl s have e: "e = ZeroDivisionError"
      by (auto simp: euclid_step.simps Let_def split: if_splits)
    have "basis_loop Fr Lambda bound s = Inl ZeroDivisionError"
      using Inl e by (subst basis_loop.simps) simp
    with Inl e "1.prems" show ?thesis by blast
  next
    case (Inr s')
    show ?thesis
    proof (cases "fst s' < bound")
      case True
      have "basis_loop Fr Lambda bound s = select_vectors Fr Lambda s'"
        using Inr True by (subst basis_loop.simps) simp
      with Inr True "1.prems" show ?thesis by blast
    next
      case False
      have eq: "basis_loop Fr Lambda bound s = basis_loop Fr Lambda bound s'"
        using Inr False by (subst basis_loop.simps) simp
      have "at_loop_head Fr Lambda bound s'"
        using "1.prems" Inr False by (rule head_next)
      from "1.IH" [OF Inr False this] show ?thesis
        unfolding eq .
    qed
  qed
qed

lemma in_lattice_select:
  assumes "bezout_inv Fr Lambda s"
    and "select_vectors Fr Lambda s = Inr (a1, b1, a2, b2)"
  shows "(a1 + b1 * Lambda) mod Fr = 0 \<and> (a2 + b2 * Lambda) mod Fr = 0"
proof -
  obtain u v x1 y1 x2 y2 where s: "s = (u, v, x1, y1, x2, y2)"
    by (cases s) auto
  from assms(1) s have bz: "u = x1 * Fr + y1 * Lambda" "v = x2 * Fr + y2 * Lambda"
    by (simp_all add: bezout_inv_def)
  define q where "q = trunc_quot v u"
  have c1: "(u + (- y1) * Lambda) mod Fr = 0"
    using bz(1) by simp
  have c2: "((x2 * Fr + y2 * Lambda) + (- y2) * Lambda) mod Fr = 0"
    by simp
  have "(v - q * u) + (- (y2 - q * y1)) * Lambda = (x2 - q * x1) * Fr"
    using bz by (simp add: algebra_simps)
  then have c3: "((v - q * u) + (- (y2 - q * y1)) * Lambda) mod Fr = 0"
    by simp
  from assms(2) s have
    "(a1, b1, a2, b2) = (x2 * Fr + y2 * Lambda, - y2, u, - y1) \<or>
     (a1, b1, a2, b2) = (u, - y1, v - q * u, - (y2 - q * y1))"
    by (auto simp: select_vectors.simps Let_def q_def split: if_splits)
  then show ?thesis
    using c1 c2 c3 by auto
qed

lemma coprime_state_step:
  assumes "coprime_state s"
  shows "\<exists>r u x y x1 y1. euclid_step s = Inr (r, u, x, y, x1, y1) \<and> 1 \<le> r \<and> 2 \<le> u
           \<and> coprime r u"
proof -
  obtain u v x1 y1 x2 y2 where s: "s = (u, v, x1, y1, x2, y2)"
    by (cases s) auto
  from assms s have u: "2 \<le> u" and v: "0 \<le> v" and co: "coprime u v"
    by (simp_all add: coprime_state_def)
  have q: "trunc_quot v u = v div u"
    using u v by (simp add: trunc_quot_nonneg)
  have r: "v - trunc_quot v u * u = v mod u"
    unfolding q by (simp add: minus_div_mult_eq_mod)
  have co': "coprime (v mod u) u"
    using co u coprime_mod_right_iff [of u v] by (simp add: coprime_commute)
  have "v mod u \<noteq> 0"
  proof
    assume "v mod u = 0"
    with co' have "is_unit u" by simp
    with u show False by simp
  qed
  moreover have "0 \<le> v mod u" using u by simp
  ultimately have "1 \<le> v mod u" by linarith
  moreover have "euclid_step s = Inr (v mod u, u, x2 - trunc_quot v u * x1,
      y2 - trunc_quot v u * y1, x1, y1)"
    using u r unfolding s by (simp add: euclid_step.simps Let_def)
  ultimately show ?thesis
    using u co' by blast
qed

lemma at_loop_head_coprime:
  assumes "at_loop_head Fr Lambda bound s"
    and "4 \<le> Fr" and "0 \<le> Lambda" and "coprime Fr Lambda" and "2 \<le> bound"
  shows "coprime_state s"
  using assms
proof (induction rule: at_loop_head.induct)
  case head_initial
  then show ?case by (simp add: coprime_state_def initial_state_def)
next
  case (head_next s s')
  then have "coprime_state s" by simp
  from coprime_state_step [OF this] obtain r u x y x1 y1 where
    st: "euclid_step s = Inr (r, u, x, y, x1, y1)" and "1 \<le> r" "2 \<le> u" "coprime r u"
    by blast
  with head_next.hyps(2,3) head_next.prems(4) show ?case
    by (auto simp: coprime_state_def)
qed

lemma isqrt_ge_2:
  assumes "4 \<le> Fr" and "isqrt Fr = Inr bound"
  shows "2 \<le> bound"
proof -
  from assms have b: "bound = int (isqrt_nat (nat Fr))"
    by (auto simp: isqrt_def split: if_splits)
  have "nat Fr < (isqrt_nat (nat Fr) + 1) * (isqrt_nat (nat Fr) + 1)"
    using isqrt_nat_bounds by blast
  moreover have "4 \<le> nat Fr" using assms(1) by simp
  ultimately have "4 < (isqrt_nat (nat Fr) + 1) * (isqrt_nat (nat Fr) + 1)"
    by linarith
  then have "\<not> isqrt_nat (nat Fr) \<le> 1"
  proof -
    have "isqrt_nat (nat Fr) \<le> 1 \<Longrightarrow> (isqrt_nat (nat Fr) + 1) * (isqrt_nat (nat Fr) + 1) \<le> 2 * 2"
      by (intro mult_mono) simp_all
    with \<open>4 < _\<close> show ?thesis by auto
  qed
  with b show ?thesis by simp
qed

text \<open>C7. Every state at the head of the loop body satisfies the Bezout relations
  \<open>u = x1 * Fr + y1 * Lambda\<close> and \<open>v = x2 * Fr + y2 * Lambda\<close>, and so does the state
  after the division and rotation of that iteration: the new remainder is
  \<open>x * Fr + y * Lambda\<close> for the new pair \<open>(x, y)\<close>.\<close>

theorem bezout_invariant_every_iteration:
  assumes "at_loop_head Fr Lambda bound s"
  shows "bezout_inv Fr Lambda s \<and> (\<forall>s'. euclid_step s = Inr s' \<longrightarrow> bezout_inv Fr Lambda s')"
proof -
  from assms have "bezout_inv Fr Lambda s"
    using at_loop_head_inv by blast
  then show ?thesis
    using bezout_inv_step by blast
qed

lemma second_head_13_3: "at_loop_head 13 3 3 (3, 13, 0, 1, 1, 0)"
proof -
  have "at_loop_head 13 3 3 (initial_state 13 3)"
    by (rule head_initial)
  moreover have "euclid_step (initial_state 13 3) = Inr (3, 13, 0, 1, 1, 0)"
    by (simp add: initial_state_def euclid_step.simps trunc_quot_def)
  moreover have "\<not> fst ((3, 13, 0, 1, 1, 0) :: euclid_state) < 3"
    by simp
  ultimately show ?thesis
    by (rule head_next)
qed

theorem bezout_invariant_every_iteration_witness:
  "at_loop_head 13 3 3 (3, 13, 0, 1, 1, 0) \<and> bezout_inv 13 3 (3, 13, 0, 1, 1, 0) \<and>
   euclid_step (3, 13, 0, 1, 1, 0) = Inr (1, 3, 1, - 4, 0, 1) \<and>
   bezout_inv 13 3 (1, 3, 1, - 4, 0, 1)"
proof -
  have st: "euclid_step (3, 13, 0, 1, 1, 0) = Inr (1, 3, 1, - 4, 0, 1)"
    by (simp add: euclid_step.simps trunc_quot_def)
  from bezout_invariant_every_iteration [OF second_head_13_3] st second_head_13_3
  show ?thesis by simp
qed

subsection \<open>Success of basis construction\<close>

lemma is_prime_coprime:
  assumes "is_prime p" and "1 \<le> l" and "l < p"
  shows "coprime p l"
proof -
  define g where "g = gcd p l"
  have gp: "g dvd p" and gl: "g dvd l" by (simp_all add: g_def)
  have "0 \<le> g" by (simp add: g_def)
  moreover have "g \<noteq> 0" using assms(2) by (simp add: g_def)
  ultimately have g1: "1 \<le> g" by linarith
  have "g \<le> l" using gl assms(2) by (simp add: zdvd_imp_le)
  then have "g < p" using assms(3) by simp
  have "\<not> 2 \<le> g"
  proof
    assume "2 \<le> g"
    with \<open>g < p\<close> have "g \<in> {2..<p}" by simp
    with assms(1) have "\<not> g dvd p" by (simp add: is_prime_def)
    with gp show False by simp
  qed
  with g1 have "g = 1" by linarith
  then show ?thesis by (simp add: g_def coprime_iff_gcd_eq_1)
qed

lemma select_vectors_nonzero:
  assumes bz: "bezout_inv Fr Lambda (u, v, x1, y1, x2, y2)"
    and um: "unimodular (u, v, x1, y1, x2, y2)"
    and u: "u \<noteq> 0" and v: "v \<noteq> 0" and Fr: "Fr \<noteq> 0"
  shows "\<exists>a1 b1 a2 b2. select_vectors Fr Lambda (u, v, x1, y1, x2, y2) = Inr (a1, b1, a2, b2)
           \<and> (a1, b1) \<noteq> (0, 0) \<and> (a2, b2) \<noteq> (0, 0)"
proof -
  from bz have bu: "u = x1 * Fr + y1 * Lambda" and bv: "v = x2 * Fr + y2 * Lambda"
    by (simp_all add: bezout_inv_def)
  from um have det: "\<bar>x1 * y2 - x2 * y1\<bar> = 1"
    by (simp add: unimodular_def)
  define q where "q = trunc_quot v u"
  have further: "\<not> (v - q * u = 0 \<and> y2 - q * y1 = 0)"
  proof
    assume z: "v - q * u = 0 \<and> y2 - q * y1 = 0"
    have "v - q * u = (x2 - q * x1) * Fr + (y2 - q * y1) * Lambda"
      using bu bv by (simp add: algebra_simps)
    moreover from z have "v - q * u = 0" and "(y2 - q * y1) * Lambda = 0" by simp_all
    ultimately have "(x2 - q * x1) * Fr = 0" by linarith
    with Fr have "x2 = q * x1" by simp
    moreover from z have "y2 = q * y1" by simp
    ultimately have "x1 * y2 - x2 * y1 = 0" by simp
    with det show False by simp
  qed
  show ?thesis
  proof (cases "(x2 * Fr + y2 * Lambda) ^ 2 + y2 ^ 2 \<le> (v - q * u) ^ 2 + (y2 - q * y1) ^ 2")
    case True
    then have "select_vectors Fr Lambda (u, v, x1, y1, x2, y2)
        = Inr (x2 * Fr + y2 * Lambda, - y2, u, - y1)"
      using u by (simp add: select_vectors.simps Let_def q_def)
    moreover have "x2 * Fr + y2 * Lambda \<noteq> 0" using v bv by simp
    ultimately show ?thesis using u by simp
  next
    case False
    then have "select_vectors Fr Lambda (u, v, x1, y1, x2, y2)
        = Inr (u, - y1, v - q * u, - (y2 - q * y1))"
      using u by (simp add: select_vectors.simps Let_def q_def)
    then show ?thesis using u further by auto
  qed
qed

lemma build_basis_succeeds:
  assumes Fr: "4 \<le> Fr" and L: "0 \<le> Lambda" and co: "coprime Fr Lambda"
  shows "\<exists>a1 b1 a2 b2. build_basis Fr Lambda = Inr (a1, b1, a2, b2)
           \<and> (a1 + b1 * Lambda) mod Fr = 0 \<and> (a2 + b2 * Lambda) mod Fr = 0
           \<and> (a1, b1) \<noteq> (0, 0) \<and> (a2, b2) \<noteq> (0, 0)"
proof -
  obtain bound where bd: "isqrt Fr = Inr bound"
    using Fr by (simp add: isqrt_def)
  then have b2: "2 \<le> bound" using Fr isqrt_ge_2 by blast
  have bb: "build_basis Fr Lambda = basis_loop Fr Lambda bound (initial_state Fr Lambda)"
    by (simp add: build_basis_def bd)
  have head: "at_loop_head Fr Lambda bound (initial_state Fr Lambda)"
    by (rule head_initial)
  from basis_loop_exit [OF head] consider
    (err) s0 where "at_loop_head Fr Lambda bound s0" "euclid_step s0 = Inl ZeroDivisionError"
  | (ok) s0 s' where "at_loop_head Fr Lambda bound s0" "euclid_step s0 = Inr s'"
      "basis_loop Fr Lambda bound (initial_state Fr Lambda) = select_vectors Fr Lambda s'"
    by blast
  then show ?thesis
  proof cases
    case err
    from at_loop_head_coprime [OF err(1) Fr L co b2] have "coprime_state s0" .
    from coprime_state_step [OF this] err(2) show ?thesis by auto
  next
    case ok
    from at_loop_head_coprime [OF ok(1) Fr L co b2] have cs: "coprime_state s0" .
    from coprime_state_step [OF cs] ok(2) obtain r u x y x1 y1 where
      s': "s' = (r, u, x, y, x1, y1)" and r: "1 \<le> r" and u: "2 \<le> u"
      by auto
    from at_loop_head_inv [OF ok(1)] ok(2) have
      bz: "bezout_inv Fr Lambda s'" and um: "unimodular s'"
      by (auto intro: bezout_inv_step unimodular_step)
    from select_vectors_nonzero [OF bz [unfolded s'] um [unfolded s']] r u Fr
    obtain a1 b1 a2 b2 where
      sel: "select_vectors Fr Lambda s' = Inr (a1, b1, a2, b2)"
      and nz: "(a1, b1) \<noteq> (0, 0)" "(a2, b2) \<noteq> (0, 0)"
      unfolding s' by force
    from in_lattice_select [OF bz sel] sel nz bb ok(3) show ?thesis
      by simp
  qed
qed

lemma build_basis_outcomes:
  assumes "0 \<le> Fr"
  shows "build_basis Fr Lambda = Inl ZeroDivisionError \<or> (\<exists>B. build_basis Fr Lambda = Inr B)"
proof -
  obtain bound where bd: "isqrt Fr = Inr bound"
    using assms by (simp add: isqrt_def)
  have bb: "build_basis Fr Lambda = basis_loop Fr Lambda bound (initial_state Fr Lambda)"
    by (simp add: build_basis_def bd)
  have sel: "select_vectors Fr Lambda s = Inl ZeroDivisionError \<or>
      (\<exists>B. select_vectors Fr Lambda s = Inr B)" for s
    by (cases s) (simp add: select_vectors.simps Let_def)
  from basis_loop_exit [OF head_initial, of Fr Lambda bound] sel show ?thesis
    unfolding bb by metis
qed

text \<open>C3 (amended). For a prime group order of at least 5 and an eigenvalue in
  \<open>[1, Fr)\<close>, basis construction returns two vectors; both lie in the sublattice
  \<open>a + b * Lambda = 0 (mod Fr)\<close> and neither is the zero vector.\<close>

theorem build_basis_in_sublattice:
  assumes "is_prime Fr" and "5 \<le> Fr" and "1 \<le> Lambda" and "Lambda < Fr"
  shows "\<exists>a1 b1 a2 b2. build_basis Fr Lambda = Inr (a1, b1, a2, b2)
           \<and> (a1 + b1 * Lambda) mod Fr = 0 \<and> (a2 + b2 * Lambda) mod Fr = 0
           \<and> (a1, b1) \<noteq> (0, 0) \<and> (a2, b2) \<noteq> (0, 0)"
proof -
  have "coprime Fr Lambda"
    using assms(1,3,4) by (rule is_prime_coprime)
  moreover have "4 \<le> Fr" "0 \<le> Lambda"
    using assms(2,3) by simp_all
  ultimately show ?thesis
    by (intro build_basis_succeeds)
qed

lemma is_prime_13: "is_prime 13"
  by code_simp

theorem build_basis_in_sublattice_witness:
  "is_prime 13 \<and> (5::int) \<le> 13 \<and> (1::int) \<le> 3 \<and> (3::int) < 13 \<and>
   (\<exists>a1 b1 a2 b2. build_basis 13 3 = Inr (a1, b1, a2, b2)
           \<and> (a1 + b1 * 3) mod 13 = 0 \<and> (a2 + b2 * 3) mod 13 = 0
           \<and> (a1, b1) \<noteq> (0, 0) \<and> (a2, b2) \<noteq> (0, 0))"
  using build_basis_in_sublattice [OF is_prime_13, of 3] is_prime_13 by simp

theorem build_basis_raises_for_prime_order:
  "is_prime 5 \<and> (0::int) \<le> 0 \<and> (0::int) < 5 \<and> build_basis 5 0 = Inl ZeroDivisionError \<and>
   is_prime 3 \<and> (0::int) \<le> 2 \<and> (2::int) < 3 \<and> build_basis 3 2 = Inl ZeroDivisionError"
  by code_simp

text \<open>C8 (amended). Basis construction validates nothing. It raises \<open>ValueError\<close>
  exactly when \<open>Fr < 0\<close> (from the integer square root); otherwise it raises
  \<open>ZeroDivisionError\<close> or returns a basis, and it returns a basis for every \<open>Fr \<ge> 4\<close>
  and every \<open>Lambda \<ge> 0\<close> coprime to \<open>Fr\<close>, prime or not, below \<open>Fr\<close> or not.\<close>

theorem build_basis_no_validation:
  "(Fr < 0 \<longrightarrow> build_basis Fr Lambda = Inl ValueError) \<and>
   (0 \<le> Fr \<longrightarrow> build_basis Fr Lambda = Inl ZeroDivisionError \<or>
       (\<exists>B. build_basis Fr Lambda = Inr B)) \<and>
   (4 \<le> Fr \<and> 0 \<le> Lambda \<and> coprime Fr Lambda \<longrightarrow> (\<exists>B. build_basis Fr Lambda = Inr B))"
proof (intro conjI impI)
  assume "Fr < 0"
  then show "build_basis Fr Lambda = Inl ValueError"
    by (simp add: build_basis_def isqrt_def)
next
  assume "0 \<le> Fr"
  then show "build_basis Fr Lambda = Inl ZeroDivisionError \<or> (\<exists>B. build_basis Fr Lambda = Inr B)"
    by (rule build_basis_outcomes)
next
  assume "4 \<le> Fr \<and> 0 \<le> Lambda \<and> coprime Fr Lambda"
  then show "\<exists>B. build_basis Fr Lambda = Inr B"
    using build_basis_succeeds [of Fr Lambda] by blast
qed

theorem build_basis_no_validation_witness:
  "(- 7 :: int) < 0 \<and> build_basis (- 7) 2 = Inl ValueError \<and>
   (0::int) \<le> 6 \<and> build_basis 6 3 = Inl ZeroDivisionError \<and>
   (4::int) \<le> 15 \<and> (0::int) \<le> 19 \<and> coprime (15::int) 19 \<and> (\<exists>B. build_basis 15 19 = Inr B)"
proof -
  have co: "coprime (15::int) 19"
    by code_simp
  have z: "build_basis 6 3 = Inl ZeroDivisionError"
    by code_simp
  from build_basis_no_validation [of "- 7" 2] build_basis_no_validation [of 15 19] co z
  show ?thesis by simp
qed

theorem build_basis_accepts_malformed_input:
  "\<not> is_prime 15 \<and> build_basis 15 4 = Inr (3, 3, 1, - 4) \<and>
   \<not> (20::int) < 13 \<and> build_basis 13 20 = Inr (6, 1, 1, - 2)"
  by code_simp

subsection \<open>The candidate selection\<close>

lemma euclid_step_spec_step:
  assumes "0 < fst s" and "0 \<le> fst (snd s)"
  shows "euclid_step s = Inr (spec_step s)"
proof -
  obtain u v x1 y1 x2 y2 where s: "s = (u, v, x1, y1, x2, y2)"
    by (cases s) auto
  with assms have "0 < u" "0 \<le> v" by simp_all
  then have "euclid_step (u, v, x1, y1, x2, y2) =
      Inr (v mod u, u, x2 - (v div u) * x1, y2 - (v div u) * y1, x1, y1)"
    by (rule euclid_step_nonneg)
  then show ?thesis
    by (simp add: s spec_step_def Let_def minus_div_mult_eq_mod)
qed

lemma spec_step_fst_nonneg:
  assumes "0 < fst s"
  shows "0 \<le> fst (spec_step s)" and "fst (snd (spec_step s)) = fst s"
proof -
  obtain u v x1 y1 x2 y2 where s: "s = (u, v, x1, y1, x2, y2)"
    by (cases s) auto
  have "v - (v div u) * u = v mod u"
    by (simp add: minus_div_mult_eq_mod)
  moreover from assms s have "0 \<le> v mod u" by simp
  ultimately show "0 \<le> fst (spec_step s)" and "fst (snd (spec_step s)) = fst s"
    by (simp_all add: s spec_step_def Let_def)
qed

text \<open>Started at a state with \<open>u > 0\<close> and \<open>v \<ge> 0\<close>, the loop leaves at the first step
  whose remainder is below the bound, and runs lines 183-199 on that state.\<close>

lemma basis_loop_first_stop:
  assumes "0 < fst s" and "0 \<le> fst (snd s)" and "1 \<le> bound"
  shows "\<exists>k\<ge>1. fst ((spec_step ^^ k) s) < bound \<and> 0 \<le> fst ((spec_step ^^ k) s) \<and>
           0 < fst (snd ((spec_step ^^ k) s)) \<and>
           (\<forall>m\<in>{1..<k}. \<not> fst ((spec_step ^^ m) s) < bound) \<and>
           basis_loop Fr Lambda bound s = select_vectors Fr Lambda ((spec_step ^^ k) s)"
  using assms
proof (induction Fr Lambda bound s rule: basis_loop.induct)
  case (1 Fr Lambda bound s)
  have st: "euclid_step s = Inr (spec_step s)"
    using "1.prems"(1,2) by (rule euclid_step_spec_step)
  have nn: "0 \<le> fst (spec_step s)" and vv: "fst (snd (spec_step s)) = fst s"
    using "1.prems"(1) by (rule spec_step_fst_nonneg)+
  show ?case
  proof (cases "fst (spec_step s) < bound")
    case True
    have "basis_loop Fr Lambda bound s = select_vectors Fr Lambda (spec_step s)"
      using st True by (subst basis_loop.simps) simp
    with True nn vv "1.prems"(1) show ?thesis
      by (intro exI [of _ 1]) simp
  next
    case False
    have eq: "basis_loop Fr Lambda bound s = basis_loop Fr Lambda bound (spec_step s)"
      using st False by (subst basis_loop.simps) simp
    have pos: "0 < fst (spec_step s)"
      using False "1.prems"(3) by simp
    have v0: "0 \<le> fst (snd (spec_step s))"
      using vv "1.prems"(1) by simp
    from "1.IH" [OF st False pos v0 "1.prems"(3)] obtain k where
      k: "1 \<le> k" "fst ((spec_step ^^ k) (spec_step s)) < bound"
         "0 \<le> fst ((spec_step ^^ k) (spec_step s))"
         "0 < fst (snd ((spec_step ^^ k) (spec_step s)))"
         "\<forall>m\<in>{1..<k}. \<not> fst ((spec_step ^^ m) (spec_step s)) < bound"
         "basis_loop Fr Lambda bound (spec_step s)
            = select_vectors Fr Lambda ((spec_step ^^ k) (spec_step s))"
      by blast
    have shift: "(spec_step ^^ j) (spec_step s) = (spec_step ^^ Suc j) s" for j
      by (simp add: funpow_swap1)
    have before: "\<not> fst ((spec_step ^^ m) s) < bound" if m: "m \<in> {1..<Suc k}" for m
    proof (cases "m = 1")
      case True
      with False show ?thesis by simp
    next
      case False
      with m obtain j where j: "m = Suc j" "j \<in> {1..<k}"
        by (cases m) auto
      with k(5) have "\<not> fst ((spec_step ^^ j) (spec_step s)) < bound" by blast
      then show ?thesis unfolding shift j(1) .
    qed
    from k(2,3,4,6) before eq show ?thesis
      unfolding shift by (intro exI [of _ "Suc k"]) simp
  qed
qed

lemma select_vectors_spec:
  assumes u: "0 \<le> spec_remainder Fr Lambda (Suc j)"
    and v: "0 < fst (snd (spec_state Fr Lambda (Suc j)))"
  shows "select_vectors Fr Lambda (spec_state Fr Lambda (Suc j)) =
           (if spec_remainder Fr Lambda (Suc j) = 0 then Inl ZeroDivisionError
            else Inr (spec_basis Fr Lambda (Suc j)))"
proof -
  obtain u' v' x1' y1' x2' y2' where p: "spec_state Fr Lambda j = (u', v', x1', y1', x2', y2')"
    by (cases "spec_state Fr Lambda j") auto
  define q' where "q' = v' div u'"
  have suc: "spec_state Fr Lambda (Suc n) = spec_step (spec_state Fr Lambda n)" for n
    by (simp add: spec_state_def)
  have sj: "spec_state Fr Lambda (Suc j) = (v' - q' * u', u', x2' - q' * x1', y2' - q' * y1', x1', y1')"
    by (simp add: suc p spec_step_def Let_def q'_def)
  define u where "u = v' - q' * u'"
  define x1 where "x1 = x2' - q' * x1'"
  define y1 where "y1 = y2' - q' * y1'"
  have sj': "spec_state Fr Lambda (Suc j) = (u, u', x1, y1, x1', y1')"
    by (simp add: sj u_def x1_def y1_def)
  from u v have u0: "0 \<le> u" and v0: "0 < u'"
    by (simp_all add: spec_remainder_def sj')
  define q where "q = u' div u"
  have sjj: "spec_state Fr Lambda (Suc (Suc j)) = (u' - q * u, u, x1' - q * x1, y1' - q * y1, x1, y1)"
    by (simp add: suc [of "Suc j"] sj' spec_step_def Let_def q_def)
  show ?thesis
  proof (cases "u = 0")
    case True
    then show ?thesis
      by (simp add: sj' spec_remainder_def select_vectors.simps)
  next
    case False
    with u0 have "0 < u" by simp
    then have tq: "trunc_quot u' u = q"
      using v0 by (simp add: trunc_quot_nonneg q_def)
    have rem: "spec_remainder Fr Lambda (Suc j) = u" "spec_y Fr Lambda (Suc j) = y1"
      "spec_remainder Fr Lambda (Suc (Suc j)) = u' - q * u"
      "spec_y Fr Lambda (Suc (Suc j)) = y1' - q * y1"
      "spec_x Fr Lambda j = x1'" "spec_y Fr Lambda j = y1'"
      by (simp_all add: spec_remainder_def spec_y_def spec_x_def sj' sjj p)
    show ?thesis
      using False
      by (simp add: sj' select_vectors.simps tq Let_def spec_basis_def rem
          del: funpow.simps)
  qed
qed

text \<open>C5. For \<open>Fr > 0\<close> and \<open>Lambda \<ge> 0\<close>, with \<open>bound\<close> the floor of the square root of
  \<open>Fr\<close>: the recurrence stops at the first step \<open>n\<close> whose remainder is below \<open>bound\<close>;
  the result is the pair of vectors the specification selects at that step from the
  candidates \<open>(r, - y1)\<close>, \<open>(r_l2, - y_l2)\<close> of one further step, and \<open>(r_l, - t_l)\<close> of
  the step before (a zero remainder at step \<open>n\<close> makes the further division raise).\<close>

theorem build_basis_follows_candidate_selection:
  assumes "0 < Fr" and "0 \<le> Lambda"
  shows "\<exists>bound n. isqrt Fr = Inr bound \<and> 0 \<le> bound \<and> bound ^ 2 \<le> Fr \<and> Fr < (bound + 1) ^ 2 \<and>
           spec_stops_at Fr Lambda bound n \<and>
           build_basis Fr Lambda =
             (if spec_remainder Fr Lambda n = 0 then Inl ZeroDivisionError
              else Inr (spec_basis Fr Lambda n))"
proof -
  from isqrt_floor_sqrt [of Fr] assms(1) obtain bound where
    bd: "isqrt Fr = Inr bound" and b0: "0 \<le> bound" and lo: "bound ^ 2 \<le> Fr"
    and hi: "Fr < (bound + 1) ^ 2"
    by auto
  have b1: "1 \<le> bound"
  proof (rule ccontr)
    assume "\<not> 1 \<le> bound"
    with b0 have "bound = 0" by simp
    with hi assms(1) show False by simp
  qed
  have bb: "build_basis Fr Lambda = basis_loop Fr Lambda bound (initial_state Fr Lambda)"
    by (simp add: build_basis_def bd)
  have "0 < fst (initial_state Fr Lambda)" "0 \<le> fst (snd (initial_state Fr Lambda))"
    using assms by (simp_all add: initial_state_def)
  from basis_loop_first_stop [OF this b1, of Fr Lambda] obtain k where
    k: "1 \<le> k" "fst ((spec_step ^^ k) (initial_state Fr Lambda)) < bound"
       "0 \<le> fst ((spec_step ^^ k) (initial_state Fr Lambda))"
       "0 < fst (snd ((spec_step ^^ k) (initial_state Fr Lambda)))"
       "\<forall>m\<in>{1..<k}. \<not> fst ((spec_step ^^ m) (initial_state Fr Lambda)) < bound"
       "basis_loop Fr Lambda bound (initial_state Fr Lambda)
          = select_vectors Fr Lambda ((spec_step ^^ k) (initial_state Fr Lambda))"
    by blast
  have st: "(spec_step ^^ m) (initial_state Fr Lambda) = spec_state Fr Lambda m" for m
    by (simp add: spec_state_def initial_state_def)
  have rm: "fst (spec_state Fr Lambda m) = spec_remainder Fr Lambda m" for m
    by (simp add: spec_remainder_def split: prod.splits)
  from k(1) obtain j where j: "k = Suc j" by (cases k) auto
  have stops: "spec_stops_at Fr Lambda bound k"
    using k(1,2,5) unfolding st rm spec_stops_at_def by simp
  have "select_vectors Fr Lambda (spec_state Fr Lambda (Suc j)) =
      (if spec_remainder Fr Lambda (Suc j) = 0 then Inl ZeroDivisionError
       else Inr (spec_basis Fr Lambda (Suc j)))"
    using k(3,4) unfolding st rm j by (rule select_vectors_spec)
  with k(6) bb have "build_basis Fr Lambda =
      (if spec_remainder Fr Lambda k = 0 then Inl ZeroDivisionError
       else Inr (spec_basis Fr Lambda k))"
    unfolding st j by simp
  with bd b0 lo hi stops show ?thesis by blast
qed

theorem build_basis_follows_candidate_selection_witness:
  "(0::int) < 13 \<and> (0::int) \<le> 3 \<and> isqrt 13 = Inr 3 \<and> spec_stops_at 13 3 3 2 \<and>
   spec_remainder 13 3 2 = 1 \<and> spec_basis 13 3 2 = (3, - 1, 1, 4) \<and>
   (\<exists>bound n. isqrt 13 = Inr bound \<and> 0 \<le> bound \<and> bound ^ 2 \<le> 13 \<and> 13 < (bound + 1) ^ 2 \<and>
      spec_stops_at 13 3 bound n \<and>
      build_basis 13 3 =
        (if spec_remainder 13 3 n = 0 then Inl ZeroDivisionError
         else Inr (spec_basis 13 3 n)))"
proof -
  have "isqrt 13 = Inr 3" "spec_stops_at 13 3 3 2" "spec_remainder 13 3 2 = 1"
    "spec_basis 13 3 2 = (3, - 1, 1, 4)"
    by code_simp+
  with build_basis_follows_candidate_selection [of 13 3] show ?thesis
    by simp
qed

subsection \<open>Number of iterations\<close>

text \<open>From the second iteration on \<open>u \<le> v\<close>, and the product \<open>u * v\<close> at least halves
  in every iteration.\<close>

lemma product_halves:
  assumes "0 < u" and "u \<le> v"
  shows "2 * ((v mod u) * u) < u * (v::int)"
proof -
  have r: "0 \<le> v mod u" "v mod u < u" using assms by simp_all
  have "0 < v div u"
    using assms pos_imp_zdiv_pos_iff [of u v] by simp
  then have "1 \<le> v div u" by simp
  then have "u * 1 \<le> u * (v div u)"
    using assms by (intro mult_left_mono) simp_all
  moreover have "v = u * (v div u) + v mod u" by simp
  ultimately have "u + v mod u \<le> v" by linarith
  with r have "2 * (v mod u) < v" by linarith
  then have "u * (2 * (v mod u)) < u * v"
    using assms by (intro mult_strict_left_mono) simp_all
  then show ?thesis by (simp add: algebra_simps)
qed

lemma basis_loop_fuel_enough:
  assumes "0 \<le> u" and "u \<le> v" and "u * v < 2 ^ n"
  shows "basis_loop_fuel (Suc n) Fr Lambda bound (u, v, x1, y1, x2, y2)
           = Some (basis_loop Fr Lambda bound (u, v, x1, y1, x2, y2))"
  using assms
proof (induction n arbitrary: u v x1 y1 x2 y2)
  case 0
  then have "u * v \<le> 0" by simp
  have "u = 0"
  proof (rule ccontr)
    assume "u \<noteq> 0"
    with 0 have "0 < u" "0 < v" by simp_all
    then have "0 < u * v" by simp
    with \<open>u * v \<le> 0\<close> show False by simp
  qed
  then have "euclid_step (u, v, x1, y1, x2, y2) = Inl ZeroDivisionError"
    by (simp add: euclid_step.simps)
  then show ?case
    by (subst basis_loop.simps) simp
next
  case (Suc n)
  show ?case
  proof (cases "u = 0")
    case True
    then have "euclid_step (u, v, x1, y1, x2, y2) = Inl ZeroDivisionError"
      by (simp add: euclid_step.simps)
    then show ?thesis
      by (subst basis_loop.simps) simp
  next
    case False
    with Suc.prems have u: "0 < u" and v: "0 \<le> v" by simp_all
    define s' where "s' = (v mod u, u, x2 - (v div u) * x1, y2 - (v div u) * y1, x1, y1)"
    have st: "euclid_step (u, v, x1, y1, x2, y2) = Inr s'"
      unfolding s'_def using u v by (rule euclid_step_nonneg)
    show ?thesis
    proof (cases "fst s' < bound")
      case True
      with st show ?thesis
        by (subst basis_loop.simps) simp
    next
      case False
      have "2 * ((v mod u) * u) < u * v"
        using u Suc.prems(2) by (rule product_halves)
      with Suc.prems(3) have "(v mod u) * u < 2 ^ n" by simp
      moreover have "0 \<le> v mod u" using u by simp
      moreover have "v mod u < u" using u by simp
      then have "v mod u \<le> u" by simp
      ultimately have "basis_loop_fuel (Suc n) Fr Lambda bound s'
          = Some (basis_loop Fr Lambda bound s')"
        unfolding s'_def by (intro Suc.IH)
      moreover have "basis_loop Fr Lambda bound (u, v, x1, y1, x2, y2)
          = basis_loop Fr Lambda bound s'"
        using st False by (subst basis_loop.simps) simp
      ultimately show ?thesis
        using st False by simp
    qed
  qed
qed

lemma less_power_nbits: "\<bar>n\<bar> < 2 ^ nbits n"
  using nbits_le_iff [of n "nbits n"] by simp

text \<open>C9. For \<open>Fr > 0\<close> and \<open>Lambda \<ge> 0\<close> the loop leaves, through \<open>break\<close> or through
  an exception, within \<open>2 * nbits(Fr) + 2\<close> iterations, and the absolute value of the
  remainder strictly decreases in every iteration.\<close>

theorem basis_loop_iterations_logarithmic:
  assumes "0 < Fr" and "0 \<le> Lambda"
  shows "build_basis_fuel (2 * nbits Fr + 2) Fr Lambda = Some (build_basis Fr Lambda) \<and>
         (\<forall>s s'. euclid_step s = Inr s' \<longrightarrow> \<bar>fst s'\<bar> < \<bar>fst s\<bar>)"
proof -
  obtain bound where bd: "isqrt Fr = Inr bound"
    using assms(1) by (simp add: isqrt_def)
  define s' where "s' = (Lambda mod Fr, Fr, 0 - (Lambda div Fr) * 1, 1 - (Lambda div Fr) * 0, 1::int, 0::int)"
  have st: "euclid_step (initial_state Fr Lambda) = Inr s'"
    unfolding s'_def initial_state_def using assms by (rule euclid_step_nonneg)
  have r: "0 \<le> Lambda mod Fr" "Lambda mod Fr < Fr" using assms(1) by simp_all
  have "Fr < 2 ^ nbits Fr"
    using less_power_nbits [of Fr] assms(1) by simp
  then have "Fr * Fr < 2 ^ nbits Fr * 2 ^ nbits Fr"
    using assms(1) by (intro mult_strict_mono) simp_all
  moreover have "(Lambda mod Fr) * Fr \<le> Fr * Fr"
  proof (rule mult_right_mono)
    show "Lambda mod Fr \<le> Fr" using r(2) by simp
    show "0 \<le> Fr" using assms(1) by simp
  qed
  ultimately have prod: "(Lambda mod Fr) * Fr < 2 ^ (2 * nbits Fr)"
    by (simp add: mult_2 power_add)
  have le: "Lambda mod Fr \<le> Fr"
    using r(2) by simp
  have rest: "basis_loop_fuel (Suc (2 * nbits Fr)) Fr Lambda bound s'
      = Some (basis_loop Fr Lambda bound s')"
    unfolding s'_def using r(1) le prod by (rule basis_loop_fuel_enough)
  have fuel: "2 * nbits Fr + 2 = Suc (Suc (2 * nbits Fr))" by simp
  have "basis_loop_fuel (2 * nbits Fr + 2) Fr Lambda bound (initial_state Fr Lambda)
      = Some (basis_loop Fr Lambda bound (initial_state Fr Lambda))"
  proof (cases "fst s' < bound")
    case True
    with st show ?thesis
      unfolding fuel by (subst basis_loop.simps) simp
  next
    case False
    have "basis_loop Fr Lambda bound (initial_state Fr Lambda) = basis_loop Fr Lambda bound s'"
      using st False by (subst basis_loop.simps) simp
    with st False rest show ?thesis
      unfolding fuel by simp
  qed
  then have "build_basis_fuel (2 * nbits Fr + 2) Fr Lambda = Some (build_basis Fr Lambda)"
    by (simp add: build_basis_fuel_def build_basis_def bd)
  then show ?thesis
    using euclid_step_decreases by blast
qed

theorem basis_loop_iterations_logarithmic_witness:
  "(0::int) < 13 \<and> (0::int) \<le> 3 \<and> nbits 13 = 4 \<and>
   build_basis_fuel (2 * 4 + 2) 13 3 = Some (Inr (3, - 1, 1, 4)) \<and>
   build_basis 13 3 = Inr (3, - 1, 1, 4) \<and>
   euclid_step (13, 3, 1, 0, 0, 1) = Inr (3, 13, 0, 1, 1, 0) \<and> \<bar>3::int\<bar> < \<bar>13\<bar>"
proof -
  have nb: "nbits 13 = 4" by code_simp
  have bb: "build_basis 13 3 = Inr (3, - 1, 1, 4)" by code_simp
  have st: "euclid_step (13, 3, 1, 0, 0, 1) = Inr (3, 13, 0, 1, 1, 0)" by code_simp
  from basis_loop_iterations_logarithmic [of 13 3] nb bb st show ?thesis
    by simp
qed

section \<open>The bit bound\<close>

lemma nbits_floor_log:
  assumes "0 < m"
  shows "int (nbits m) = \<lfloor>log 2 (of_int m)\<rfloor> + 1"
proof -
  have pos: "0 < nat \<bar>m\<bar>" using assms by simp
  have r: "real (nat \<bar>m\<bar>) = of_int m" using assms by simp
  have "1 \<le> (of_int m :: real)" using assms by simp
  then have "0 \<le> log 2 (of_int m)" by simp
  then have nn: "0 \<le> \<lfloor>log 2 (of_int m :: real)\<rfloor>" by simp
  have "nbits m = nat \<lfloor>log 2 (real (nat \<bar>m\<bar>))\<rfloor> + 1"
    using pos by (simp add: nbits_def nbits_nat_floorlog floorlog_def)
  then show ?thesis
    using nn by (simp add: r)
qed

text \<open>C4 (amended). The bound is \<open>limit = floor((nbits(M) + 1) / 2)\<close> for the larger
  squared norm \<open>M\<close>, where \<open>nbits(M) = floor(log2 M) + 1\<close> is the bit length:
  \<open>limit = floor((floor(log2 M) + 2) / 2)\<close>.\<close>

theorem limit_of_formula:
  assumes "0 < max_norm_squared B"
  shows "int (limit_of B) = (\<lfloor>log 2 (of_int (max_norm_squared B))\<rfloor> + 2) div 2"
proof -
  have "int (limit_of B) = (int (nbits (max_norm_squared B)) + 1) div 2"
    by (simp add: limit_of_def zdiv_int)
  then show ?thesis
    using nbits_floor_log [OF assms] by simp
qed

lemma max_norm_squared_7_2: "max_norm_squared (2, - 1, 1, 3) = 10"
  by (simp add: max_norm_squared_def)

lemma floor_log_2_10: "\<lfloor>log 2 (10::real)\<rfloor> = 3"
proof -
  have "(2::real) ^ 3 \<le> 10" "(10::real) < 2 ^ (3 + 1)" by simp_all
  then have "\<lfloor>log 2 (10::real)\<rfloor> = int 3"
    by (intro floor_log_eq_powr_iff [THEN iffD2]) (simp_all add: powr_realpow)
  then show ?thesis by simp
qed

theorem limit_of_formula_witness:
  "0 < max_norm_squared (2, - 1, 1, 3) \<and> int (limit_of (2, - 1, 1, 3)) = (3 + 2) div 2"
  using limit_of_formula [of "(2, - 1, 1, 3)"] max_norm_squared_7_2 floor_log_2_10
  by simp

theorem limit_differs_from_spec_formula:
  "build_basis 7 2 = Inr (2, - 1, 1, 3) \<and> limit_of (2, - 1, 1, 3) = 2 \<and>
   spec_limit (2, - 1, 1, 3) = 3"
proof -
  have b: "build_basis 7 2 = Inr (2, - 1, 1, 3)"
    by code_simp
  have l: "limit_of (2, - 1, 1, 3) = 2"
    by code_simp
  have "(2::nat) ^ 3 < 10" "(10::nat) \<le> 2 ^ (3 + 1)" "(2::nat) \<le> 2" by simp_all
  then have "\<lceil>log (real 2) (real 10)\<rceil> = int 3 + 1"
    by (rule ceiling_log_nat_eq_if)
  then have "\<lceil>log 2 (10::real)\<rceil> = 4" by simp
  then have "spec_limit (2, - 1, 1, 3) = 3"
    by (simp add: spec_limit_def max_norm_squared_7_2)
  with b l show ?thesis by simp
qed

section \<open>Scalar decomposition\<close>

subsection \<open>Rounding\<close>

lemma sage_round_half_away: "rounds_half_away x (sage_round x)"
proof (cases "x < 0")
  case False
  define c where "c = \<lfloor>x + 1 / 2\<rfloor>"
  have "of_int c \<le> x + 1 / 2" "x + 1 / 2 < of_int c + 1"
    unfolding c_def by linarith+
  with False have "rounds_half_away x c"
    unfolding rounds_half_away_def by (auto simp: abs_if)
  with False show ?thesis by (simp add: sage_round_def c_def)
next
  case True
  define d where "d = \<lceil>x + 1 / 2\<rceil>"
  have "of_int d - 1 < x + 1 / 2" "x + 1 / 2 \<le> of_int d"
    unfolding d_def by linarith+
  with True have "rounds_half_away x (d - 1)"
    unfolding rounds_half_away_def by (auto simp: abs_if)
  with True show ?thesis by (simp add: sage_round_def d_def)
qed

lemma rounds_half_away_unique:
  assumes "rounds_half_away x c" and "rounds_half_away x d"
  shows "c = d"
proof (rule ccontr)
  assume ne: "c \<noteq> d"
  have wlog: False if cd: "c < d" and rc: "rounds_half_away x c" and rd: "rounds_half_away x d"
    for c d
  proof -
    from cd have "(of_int c :: rat) + 1 \<le> of_int d"
      by (metis of_int_1 of_int_add of_int_le_iff zless_imp_add1_zle)
    moreover from rc rd have "\<bar>of_int c - x\<bar> \<le> 1 / 2" "\<bar>of_int d - x\<bar> \<le> 1 / 2"
      by (simp_all add: rounds_half_away_def)
    ultimately have e: "of_int c = x - 1 / 2" "of_int d = x + 1 / 2"
      by linarith+
    then have "\<bar>of_int c - x\<bar> = 1 / 2" "\<bar>of_int d - x\<bar> = 1 / 2" by simp_all
    with rc rd have "\<bar>x\<bar> < \<bar>of_int c\<bar>" "\<bar>x\<bar> < \<bar>of_int d\<bar>"
      by (simp_all add: rounds_half_away_def)
    then have "\<bar>of_int c + 1 / 2\<bar> < \<bar>(of_int c :: rat)\<bar>"
        "\<bar>of_int c + 1 / 2\<bar> < \<bar>(of_int c :: rat) + 1\<bar>"
      using e by simp_all
    moreover have "(of_int c :: rat) \<le> - 1 \<or> 0 \<le> (of_int c :: rat)"
    proof (cases "c \<le> - 1")
      case True
      then have "(of_int c :: rat) \<le> of_int (- 1)" by (simp only: of_int_le_iff)
      then show ?thesis by simp
    next
      case False
      then have "0 \<le> c" by simp
      then show ?thesis by simp
    qed
    ultimately show False by linarith
  qed
  from ne have "c < d \<or> d < c" by auto
  with wlog assms show False by blast
qed

text \<open>For an odd modulus the quotient is never halfway between two integers, so the
  direction in which a tie is broken does not affect the coefficients.\<close>

lemma no_tie_for_odd_modulus:
  assumes "odd Fr"
  shows "\<bar>of_int c - (of_int n / of_int Fr :: rat)\<bar> \<noteq> 1 / 2"
proof
  assume tie: "\<bar>of_int c - (of_int n / of_int Fr :: rat)\<bar> = 1 / 2"
  from assms have nz: "(of_int Fr :: rat) \<noteq> 0" by auto
  from tie have "of_int c - (of_int n / of_int Fr :: rat) = 1 / 2 \<or>
      of_int c - (of_int n / of_int Fr :: rat) = - (1 / 2)"
    by (auto simp: abs_if split: if_splits)
  then have "(of_int (2 * (c * Fr - n)) :: rat) = of_int Fr \<or>
      (of_int (2 * (c * Fr - n)) :: rat) = of_int (- Fr)"
    using nz by (auto simp: field_simps)
  then have "2 * (c * Fr - n) = Fr \<or> 2 * (c * Fr - n) = - Fr"
    by (simp only: of_int_eq_iff)
  then have "even Fr"
    by (metis dvd_triv_left even_minus)
  with assms show False by simp
qed

text \<open>C6. The coefficients \<open>c1\<close> and \<open>c2\<close> are the exact rationals \<open>b2 * k / Fr\<close> and
  \<open>- b1 * k / Fr\<close> rounded to a nearest integer, a tie going away from zero; no other
  integer is such a rounding, so the coefficients are determined by \<open>k\<close>.\<close>

theorem rounding_coefficients_half_away:
  assumes "rounding_coefficients Fr (a1, b1, a2, b2) k = (c1, c2)"
  shows "rounds_half_away (of_int (b2 * k) / of_int Fr) c1 \<and>
         rounds_half_away (of_int (- b1 * k) / of_int Fr) c2 \<and>
         (\<forall>c. rounds_half_away (of_int (b2 * k) / of_int Fr) c \<longrightarrow> c = c1) \<and>
         (\<forall>c. rounds_half_away (of_int (- b1 * k) / of_int Fr) c \<longrightarrow> c = c2)"
proof -
  from assms have c1: "c1 = sage_round (of_int (b2 * k) / of_int Fr)"
    and c2: "c2 = sage_round (of_int (- b1 * k) / of_int Fr)"
    by (simp_all add: rounding_coefficients_def Let_def)
  have r1: "rounds_half_away (of_int (b2 * k) / of_int Fr) c1"
    unfolding c1 by (rule sage_round_half_away)
  have r2: "rounds_half_away (of_int (- b1 * k) / of_int Fr) c2"
    unfolding c2 by (rule sage_round_half_away)
  from r1 r2 show ?thesis
    using rounds_half_away_unique by blast
qed

theorem rounding_coefficients_half_away_witness:
  "rounding_coefficients 2 (1, 5, 1, 5) 1 = (3, - 3) \<and>
   rounds_half_away (of_int (5 * 1) / of_int 2) 3 \<and>
   rounds_half_away (of_int (- 5 * 1) / of_int 2) (- 3)"
proof -
  have e: "rounding_coefficients 2 (1, 5, 1, 5) 1 = (3, - 3)"
    by code_simp
  from rounding_coefficients_half_away [OF e] e show ?thesis by simp
qed

subsection \<open>Reconstruction and sign\<close>

lemma raw_decomposition_eq:
  "raw_decomposition Fr (a1, b1, a2, b2) k =
     (k - fst (rounding_coefficients Fr (a1, b1, a2, b2) k) * a1
        - snd (rounding_coefficients Fr (a1, b1, a2, b2) k) * a2,
      - fst (rounding_coefficients Fr (a1, b1, a2, b2) k) * b1
        - snd (rounding_coefficients Fr (a1, b1, a2, b2) k) * b2)"
  by (simp add: raw_decomposition_def Let_def split: prod.splits)

text \<open>Before the conditional replacement the pair reconstructs the scalar, for any
  basis in the sublattice.\<close>

lemma raw_decomposition_identity:
  assumes l1: "(a1 + b1 * Lambda) mod Fr = 0" and l2: "(a2 + b2 * Lambda) mod Fr = 0"
    and raw: "raw_decomposition Fr (a1, b1, a2, b2) k = (k1, k2)"
  shows "(k1 + k2 * Lambda) mod Fr = k mod Fr"
proof -
  define c1 where "c1 = fst (rounding_coefficients Fr (a1, b1, a2, b2) k)"
  define c2 where "c2 = snd (rounding_coefficients Fr (a1, b1, a2, b2) k)"
  from raw have k1: "k1 = k - c1 * a1 - c2 * a2" and k2: "k2 = - c1 * b1 - c2 * b2"
    by (simp_all add: raw_decomposition_eq c1_def c2_def)
  have "k1 + k2 * Lambda - k = - c1 * (a1 + b1 * Lambda) - c2 * (a2 + b2 * Lambda)"
    unfolding k1 k2 by (simp add: algebra_simps)
  moreover have "Fr dvd (a1 + b1 * Lambda)" "Fr dvd (a2 + b2 * Lambda)"
    using l1 l2 by (simp_all add: dvd_eq_mod_eq_0)
  ultimately have "Fr dvd (k1 + k2 * Lambda - k)"
    by (simp add: dvd_diff)
  then show ?thesis
    by (simp add: mod_eq_dvd_iff)
qed

text \<open>A returned component is the raw one, or \<open>Fr\<close> minus the raw one where the
  replacement fired; counting a replaced component negatively, the returned pair
  reconstructs the scalar.\<close>

lemma returned_decomposition_identity:
  assumes l1: "(a1 + b1 * Lambda) mod Fr = 0" and l2: "(a2 + b2 * Lambda) mod Fr = 0"
    and raw: "raw_decomposition Fr (a1, b1, a2, b2) k = (k1, k2)"
    and ret: "get_endomorphism_scalar_decomposition Fr (a1, b1, a2, b2) limit k = Inr (r1, r2)"
  shows "((if nbits k1 > limit then - r1 else r1)
          + (if nbits k2 > limit then - r2 else r2) * Lambda) mod Fr = k mod Fr"
proof -
  from ret raw have r1: "r1 = replace_if_long Fr limit k1" and r2: "r2 = replace_if_long Fr limit k2"
    by (auto simp: get_endomorphism_scalar_decomposition_def Let_def split: if_splits)
  define s1 where "s1 = (if nbits k1 > limit then - r1 else r1)"
  define s2 where "s2 = (if nbits k2 > limit then - r2 else r2)"
  have "Fr dvd (s1 - k1)" "Fr dvd (s2 - k2)"
    by (simp_all add: s1_def s2_def r1 r2 replace_if_long_def)
  then have "Fr dvd ((s1 - k1) + (s2 - k2) * Lambda)"
    by (simp add: dvd_add)
  moreover have "(s1 - k1) + (s2 - k2) * Lambda = (s1 + s2 * Lambda) - (k1 + k2 * Lambda)"
    by (simp add: algebra_simps)
  ultimately have "(s1 + s2 * Lambda) mod Fr = (k1 + k2 * Lambda) mod Fr"
    by (simp add: mod_eq_dvd_iff)
  with raw_decomposition_identity [OF l1 l2 raw] show ?thesis
    by (simp add: s1_def s2_def)
qed

text \<open>C10. A raw component whose magnitude fits into \<open>limit\<close> bits is returned as it
  is, negative or not; what the assertions constrain is the absolute value of a
  returned component; and some scalar in range has a negative returned component:
  for \<open>Fr = 13\<close>, \<open>Lambda = 3\<close> the scalar \<open>2\<close> decomposes into \<open>(- 1, 1)\<close>.\<close>

theorem decomposition_returns_negative_components:
  "(Fr \<noteq> 0 \<and> raw_decomposition Fr B k = (k1, k2) \<and> nbits k1 \<le> limit \<and> nbits k2 \<le> limit
      \<longrightarrow> get_endomorphism_scalar_decomposition Fr B limit k = Inr (k1, k2)) \<and>
   (get_endomorphism_scalar_decomposition Fr B limit k = Inr (r1, r2)
      \<longrightarrow> \<bar>r1\<bar> < 2 ^ limit \<and> \<bar>r2\<bar> < 2 ^ limit) \<and>
   decompose 13 3 2 = Inr (- 1, 1)"
proof -
  have unchanged: "get_endomorphism_scalar_decomposition Fr B limit k = Inr (k1, k2)"
    if "Fr \<noteq> 0 \<and> raw_decomposition Fr B k = (k1, k2) \<and> nbits k1 \<le> limit \<and> nbits k2 \<le> limit"
    using that by (simp add: get_endomorphism_scalar_decomposition_def replace_if_long_def)
  have magnitude: "\<bar>r1\<bar> < 2 ^ limit \<and> \<bar>r2\<bar> < 2 ^ limit"
    if "get_endomorphism_scalar_decomposition Fr B limit k = Inr (r1, r2)"
  proof -
    from that have "nbits r1 \<le> limit \<and> nbits r2 \<le> limit"
      by (auto simp: get_endomorphism_scalar_decomposition_def Let_def
          split: if_splits prod.splits)
    then show ?thesis
      by (simp add: nbits_le_iff)
  qed
  have example: "decompose 13 3 2 = Inr (- 1, 1)"
    by code_simp
  from unchanged magnitude example show ?thesis
    by blast
qed

theorem decomposition_returns_negative_components_witness:
  "(13::int) \<noteq> 0 \<and> raw_decomposition 13 (3, - 1, 1, 4) 2 = (- 1, 1) \<and>
   nbits (- 1) \<le> 3 \<and> nbits 1 \<le> 3 \<and>
   get_endomorphism_scalar_decomposition 13 (3, - 1, 1, 4) 3 2 = Inr (- 1, 1) \<and>
   \<bar>- 1 :: int\<bar> < 2 ^ 3 \<and> (- 1 :: int) < 0"
proof -
  have raw: "raw_decomposition 13 (3, - 1, 1, 4) 2 = (- 1, 1)"
    by code_simp
  have nb: "nbits (- 1) \<le> 3" "nbits 1 \<le> 3"
    by (simp_all add: nbits_le_iff)
  from decomposition_returns_negative_components
    [of 13 "(3, - 1, 1, 4)" 2 "- 1" 1 3 "- 1" 1] raw nb
  show ?thesis by simp
qed

subsection \<open>Orientation of the basis and the two assertions\<close>

text \<open>The two stored vectors span a lattice of determinant \<open>Fr\<close> up to sign; the sign
  depends on the parity of the stopping step and on the branch of the tie-break.\<close>

lemma select_vectors_determinant:
  assumes "bezout_inv Fr Lambda s" and "unimodular s"
    and "select_vectors Fr Lambda s = Inr (a1, b1, a2, b2)"
  shows "\<bar>a1 * b2 - a2 * b1\<bar> = \<bar>Fr\<bar>"
proof -
  obtain u v x1 y1 x2 y2 where s: "s = (u, v, x1, y1, x2, y2)"
    by (cases s) auto
  from assms(1) s have bu: "u = x1 * Fr + y1 * Lambda" and bv: "v = x2 * Fr + y2 * Lambda"
    by (simp_all add: bezout_inv_def)
  from assms(2) s have det: "\<bar>x1 * y2 - x2 * y1\<bar> = 1"
    by (simp add: unimodular_def)
  define q where "q = trunc_quot v u"
  have key: "u * y2 - v * y1 = Fr * (x1 * y2 - x2 * y1)"
    unfolding bu bv by (simp add: algebra_simps)
  have "\<bar>u * y2 - v * y1\<bar> = \<bar>Fr\<bar>"
    unfolding key by (simp add: abs_mult det)
  moreover have "(x2 * Fr + y2 * Lambda) * (- y1) - u * (- y2) = u * y2 - v * y1"
    unfolding bv [symmetric] by (simp add: algebra_simps)
  moreover have "u * (- (y2 - q * y1)) - (v - q * u) * (- y1) = - (u * y2 - v * y1)"
    by (simp add: algebra_simps)
  moreover from assms(3) s have
    "(a1, b1, a2, b2) = (x2 * Fr + y2 * Lambda, - y2, u, - y1) \<or>
     (a1, b1, a2, b2) = (u, - y1, v - q * u, - (y2 - q * y1))"
    by (auto simp: select_vectors.simps Let_def q_def split: if_splits)
  ultimately show ?thesis
    by (metis Pair_inject abs_minus_cancel)
qed

lemma build_basis_determinant:
  assumes "build_basis Fr Lambda = Inr (a1, b1, a2, b2)"
  shows "\<bar>a1 * b2 - a2 * b1\<bar> = \<bar>Fr\<bar>"
proof -
  from assms obtain bound where bd: "isqrt Fr = Inr bound"
    and bl: "basis_loop Fr Lambda bound (initial_state Fr Lambda) = Inr (a1, b1, a2, b2)"
    by (auto simp: build_basis_def split: sum.splits)
  from basis_loop_exit [OF head_initial, of Fr Lambda bound] bl obtain s0 s' where
    h: "at_loop_head Fr Lambda bound s0" "euclid_step s0 = Inr s'"
       "select_vectors Fr Lambda s' = Inr (a1, b1, a2, b2)"
    by auto
  from at_loop_head_inv [OF h(1)] h(2) have "bezout_inv Fr Lambda s'" "unimodular s'"
    by (auto intro: bezout_inv_step unimodular_step)
  then show ?thesis
    using h(3) by (rule select_vectors_determinant)
qed

text \<open>With determinant \<open>+ Fr\<close> the raw components are within the bound for every scalar, so
  nothing is replaced and no assertion fires.\<close>

lemma half_combination_bound:
  fixes d1 d2 :: rat and p q :: int
  assumes "\<bar>d1\<bar> \<le> 1 / 2" and "\<bar>d2\<bar> \<le> 1 / 2"
    and "of_int m = d1 * of_int p + d2 * of_int q"
  shows "m ^ 2 \<le> max (p ^ 2) (q ^ 2)"
proof -
  define A where "A = max \<bar>p\<bar> \<bar>q\<bar>"
  have A: "\<bar>p\<bar> \<le> A" "\<bar>q\<bar> \<le> A" "0 \<le> A" by (simp_all add: A_def)
  have "\<bar>d1 * of_int p\<bar> \<le> (1 / 2) * of_int A"
    unfolding abs_mult using assms(1) A(1) by (intro mult_mono) (simp_all flip: of_int_abs)
  moreover have "\<bar>d2 * of_int q\<bar> \<le> (1 / 2) * of_int A"
    unfolding abs_mult using assms(2) A(2) by (intro mult_mono) (simp_all flip: of_int_abs)
  ultimately have "\<bar>(of_int m :: rat)\<bar> \<le> of_int A"
    unfolding assms(3) by linarith
  then have "\<bar>m\<bar> \<le> A"
    by (simp flip: of_int_abs)
  then have "\<bar>m\<bar> \<le> \<bar>A\<bar>"
    using A(3) by simp
  then have "m ^ 2 \<le> A ^ 2"
    by (simp only: abs_le_square_iff)
  also have "A ^ 2 = max (p ^ 2) (q ^ 2)"
  proof (cases "\<bar>p\<bar> \<le> \<bar>q\<bar>")
    case True
    then have "p ^ 2 \<le> q ^ 2" by (simp add: abs_le_square_iff)
    with True show ?thesis by (simp add: A_def max_def)
  next
    case False
    then have "\<bar>q\<bar> \<le> \<bar>p\<bar>" by simp
    then have "q ^ 2 \<le> p ^ 2" by (simp add: abs_le_square_iff)
    with False show ?thesis by (auto simp: A_def max_def)
  qed
  finally show ?thesis .
qed

lemma max_of_sums:
  fixes p q r s :: int
  assumes "0 \<le> p" and "0 \<le> q" and "0 \<le> r" and "0 \<le> s"
  shows "max p r \<le> max (p + q) (r + s)" and "max q s \<le> max (p + q) (r + s)"
  using assms by auto

lemma within_limit:
  assumes "m ^ 2 \<le> max_norm_squared B"
  shows "nbits m \<le> limit_of B"
proof -
  define M where "M = max_norm_squared B"
  have "nbits M \<le> 2 * limit_of B"
    by (simp add: limit_of_def M_def)
  then have "\<bar>M\<bar> < 2 ^ (2 * limit_of B)"
    by (simp add: nbits_le_iff)
  with assms have "m ^ 2 < (2 ^ limit_of B) ^ 2"
    by (simp add: M_def power_mult [symmetric] mult.commute)
  then have "\<bar>m\<bar> < 2 ^ limit_of B"
    using power2_less_imp_less [of "\<bar>m\<bar>" "2 ^ limit_of B"] by simp
  then show ?thesis
    by (simp add: nbits_le_iff)
qed

lemma assertions_hold_for_positive_determinant:
  assumes det: "a1 * b2 - a2 * b1 = Fr" and Fr: "0 < Fr"
  shows "get_endomorphism_scalar_decomposition Fr (a1, b1, a2, b2) (limit_of (a1, b1, a2, b2)) k
           = Inr (raw_decomposition Fr (a1, b1, a2, b2) k)"
proof -
  define B where "B = (a1, b1, a2, b2)"
  define beta1 :: rat where "beta1 = of_int (b2 * k) / of_int Fr"
  define beta2 :: rat where "beta2 = of_int (- b1 * k) / of_int Fr"
  define c1 where "c1 = sage_round beta1"
  define c2 where "c2 = sage_round beta2"
  define k1 where "k1 = k - c1 * a1 - c2 * a2"
  define k2 where "k2 = - c1 * b1 - c2 * b2"
  have rc: "rounding_coefficients Fr B k = (c1, c2)"
    by (simp add: rounding_coefficients_def B_def c1_def c2_def beta1_def beta2_def)
  have raw: "raw_decomposition Fr B k = (k1, k2)"
    by (simp add: raw_decomposition_def B_def [symmetric] rc k1_def k2_def)
      (simp add: B_def)
  have d1: "\<bar>beta1 - of_int c1\<bar> \<le> 1 / 2" and d2: "\<bar>beta2 - of_int c2\<bar> \<le> 1 / 2"
    using sage_round_half_away [of beta1] sage_round_half_away [of beta2]
    by (simp_all add: rounds_half_away_def c1_def c2_def abs_minus_commute)
  have FrQ: "(of_int Fr :: rat) \<noteq> 0" using Fr by simp
  have "beta1 * of_int a1 + beta2 * of_int a2 = of_int (k * (a1 * b2 - a2 * b1)) / of_int Fr"
    by (simp add: beta1_def beta2_def algebra_simps add_divide_distrib diff_divide_distrib)
  also have "\<dots> = of_int k"
    unfolding det using FrQ by simp
  finally have e1: "beta1 * of_int a1 + beta2 * of_int a2 = (of_int k :: rat)" .
  have e2: "beta1 * of_int b1 + beta2 * of_int b2 = 0"
    by (simp add: beta1_def beta2_def algebra_simps)
  have "(of_int k1 :: rat) = of_int k - of_int c1 * of_int a1 - of_int c2 * of_int a2"
    by (simp add: k1_def)
  also have "\<dots> = (beta1 - of_int c1) * of_int a1 + (beta2 - of_int c2) * of_int a2"
    unfolding e1 [symmetric] by (simp add: algebra_simps)
  finally have "k1 ^ 2 \<le> max (a1 ^ 2) (a2 ^ 2)"
    using d1 d2 by (intro half_combination_bound)
  moreover have "(of_int k2 :: rat) = 0 - of_int c1 * of_int b1 - of_int c2 * of_int b2"
    by (simp add: k2_def)
  then have "(of_int k2 :: rat) = (beta1 - of_int c1) * of_int b1 + (beta2 - of_int c2) * of_int b2"
    unfolding e2 [symmetric] by (simp add: algebra_simps)
  then have "k2 ^ 2 \<le> max (b1 ^ 2) (b2 ^ 2)"
    using d1 d2 by (intro half_combination_bound)
  moreover have "max (a1 ^ 2) (a2 ^ 2) \<le> max_norm_squared B"
    "max (b1 ^ 2) (b2 ^ 2) \<le> max_norm_squared B"
    unfolding max_norm_squared_def B_def Let_def prod.case
    by (rule max_of_sums; simp)+
  ultimately have "nbits k1 \<le> limit_of B" "nbits k2 \<le> limit_of B"
    by (auto intro: within_limit)
  then have "get_endomorphism_scalar_decomposition Fr B (limit_of B) k = Inr (k1, k2)"
    using Fr by (simp add: get_endomorphism_scalar_decomposition_def raw replace_if_long_def)
  then show ?thesis
    using raw unfolding B_def by simp
qed

lemma bls12_isqrt: "isqrt (Params_Fr BLS12) = Inr 228988810152649578064853576960394133503"
  by (rule isqrt_unique) simp_all

lemma bls12_basis:
  "build_basis (Params_Fr BLS12)
     52435875175126190479447740508185965837461563690374988244538805122978187051009
   = Inr (228988810152649578064853576960394133504, 1, 1,
          - 228988810152649578064853576960394133503)"
  unfolding build_basis_def bls12_isqrt
  by (simp add: initial_state_def basis_loop.simps euclid_step.simps select_vectors.simps
      trunc_quot_def Let_def)

lemma bls12_limit:
  "limit_of (228988810152649578064853576960394133504, 1, 1,
          - 228988810152649578064853576960394133503) = 128"
proof -
  have "nbits 52435875175126190479447740508185965837919541310680287400668512276898975318017
      = Suc 254"
    by (rule nbits_eq) simp_all
  then show ?thesis
    by (simp add: limit_of_def max_norm_squared_def)
qed

lemma bls12_raw:
  "raw_decomposition (Params_Fr BLS12)
     (228988810152649578064853576960394133504, 1, 1, - 228988810152649578064853576960394133503)
     (2 ^ 128) = (569271177073588041528228184392162344960, 1)"
proof -
  have pos: "0 < Params_Fr BLS12" by simp
  have "rounding_coefficients (Params_Fr BLS12)
     (228988810152649578064853576960394133504, 1, 1, - 228988810152649578064853576960394133503)
     (2 ^ 128) = (- 1, 0)"
    unfolding rounding_coefficients_def prod.case Let_def sage_round_fraction [OF pos]
    by simp
  then show ?thesis
    by (simp add: raw_decomposition_def)
qed

lemma bls12_assertion:
  "get_endomorphism_scalar_decomposition (Params_Fr BLS12)
     (228988810152649578064853576960394133504, 1, 1, - 228988810152649578064853576960394133503)
     128 (2 ^ 128) = Inl AssertionError"
  unfolding get_endomorphism_scalar_decomposition_def bls12_raw
  by (simp add: replace_if_long_def nbits_gt_iff nbits_le_iff)

lemma small_assertion:
  "(4 ^ 2 + 4 + 1) mod 7 = (0::int) \<and>
   build_basis 7 4 = Inr (3, 1, 1, - 2) \<and> limit_of (3, 1, 1, - 2) = 2 \<and>
   raw_decomposition 7 (3, 1, 1, - 2) 6 = (13, 0) \<and>
   replace_if_long 7 2 13 = - 6 \<and> nbits (- 6) = 3 \<and>
   get_endomorphism_scalar_decomposition 7 (3, 1, 1, - 2) 2 6 = Inl AssertionError"
  by code_simp

lemma is_prime_7: "is_prime 7"
  by code_simp

text \<open>C2 (evaluation at failing inputs). \<open>Fr = 7\<close> is prime and \<open>Lambda = 4\<close> is a root
  of \<open>x^2 + x + 1\<close> modulo 7. The loop returns the basis \<open>(3, 1), (1, - 2)\<close>, the bound
  is 2, and for the scalar \<open>k = 6\<close> the raw first component is 13; it is replaced by
  \<open>7 - 13 = - 6\<close>, which has 3 bits, and the first assertion fails. The same happens
  for the BLS12 group order of the script with the root \<open>Lambda\<close> of \<open>x^2 + x + 1\<close>
  below and the scalar \<open>2^128\<close>. Both bases have determinant \<open>- Fr\<close>.\<close>

theorem assertion_fires_for_scalar_in_range:
  "(4 ^ 2 + 4 + 1) mod 7 = (0::int) \<and>
   build_basis 7 4 = Inr (3, 1, 1, - 2) \<and> limit_of (3, 1, 1, - 2) = 2 \<and>
   raw_decomposition 7 (3, 1, 1, - 2) 6 = (13, 0) \<and>
   replace_if_long 7 2 13 = - 6 \<and> nbits (- 6) = 3 \<and>
   get_endomorphism_scalar_decomposition 7 (3, 1, 1, - 2) 2 6 = Inl AssertionError \<and>
   (52435875175126190479447740508185965837461563690374988244538805122978187051009 ^ 2
     + 52435875175126190479447740508185965837461563690374988244538805122978187051009 + 1)
     mod Params_Fr BLS12 = 0 \<and>
   build_basis (Params_Fr BLS12)
     52435875175126190479447740508185965837461563690374988244538805122978187051009
     = Inr (228988810152649578064853576960394133504, 1, 1,
            - 228988810152649578064853576960394133503) \<and>
   limit_of (228988810152649578064853576960394133504, 1, 1,
            - 228988810152649578064853576960394133503) = 128 \<and>
   (0::int) \<le> 2 ^ 128 \<and> 2 ^ 128 < Params_Fr BLS12 \<and>
   get_endomorphism_scalar_decomposition (Params_Fr BLS12)
     (228988810152649578064853576960394133504, 1, 1, - 228988810152649578064853576960394133503)
     128 (2 ^ 128) = Inl AssertionError"
proof -
  have "(52435875175126190479447740508185965837461563690374988244538805122978187051009 ^ 2
     + 52435875175126190479447740508185965837461563690374988244538805122978187051009 + 1)
     mod Params_Fr BLS12 = 0"
    by simp
  moreover have "(0::int) \<le> 2 ^ 128" "2 ^ 128 < Params_Fr BLS12"
    by simp_all
  ultimately show ?thesis
    using small_assertion bls12_basis bls12_limit bls12_assertion by blast
qed

text \<open>C1 (evaluation at a failing input). With \<open>Fr = 7\<close> and \<open>Lambda = 4\<close>, for
  \<open>k = 6\<close> no pair is returned; for \<open>k = 2\<close> the returned pair is \<open>(2, 1)\<close>, whose first
  component was replaced, and \<open>2 + 1 * 4\<close> is not congruent to 2 modulo 7.\<close>

theorem no_reconstructing_pair_for_scalar_in_range:
  "(0::int) \<le> 6 \<and> (6::int) < 7 \<and> decompose 7 4 6 = Inl AssertionError \<and>
   decompose 7 4 2 = Inr (2, 1) \<and> raw_decomposition 7 (3, 1, 1, - 2) 2 = (5, 1) \<and>
   (2 + 1 * 4) mod 7 \<noteq> (2::int) mod 7"
  by code_simp

end
